theory Spec2Isabelle
  imports Complex_Main "HOL-Library.Multiset" "HOL-Library.Sublist"
begin

section \<open>Python values used by engine.py\<close>

text \<open>
  The experiment engine (src/engine.py) runs agents, then plots and exports their paths.
  Exceptions are values: a function that can raise returns \<open>py_error + 'a\<close>, with
  \<open>Inl\<close> for the exception. Only the exception classes the modelled code can raise
  are listed; \<open>CsvError\<close> is \<^verbatim>\<open>csv.Error\<close>.
\<close>

datatype py_error = AssertionError | TypeError | ValueError | FileNotFoundError | OSError | CsvError

definition CR :: char where "CR = CHR 0x0D"
definition LF :: char where "LF = CHR 0x0A"

text \<open>
  \<^verbatim>\<open>s.replace(old, new)\<close> for a one-character \<open>old\<close>, the only form engine.py uses
  (lines 106-107 and 216-217).
\<close>

definition py_replace :: "char \<Rightarrow> string \<Rightarrow> string \<Rightarrow> string" where
  "py_replace old new s = concat (map (\<lambda>c. if c = old then new else [c]) s)"

text \<open>
  \<^verbatim>\<open>s.split(sep)\<close> for a one-character separator: the pieces between the
  separators, at least one piece. engine.py line 247 takes the last piece,
  \<^verbatim>\<open>path.split(".")[-1]\<close>.
\<close>

fun py_split :: "char \<Rightarrow> string \<Rightarrow> string list" where
  "py_split sep [] = [[]]"
| "py_split sep (c # cs) =
     (if c = sep then [] # py_split sep cs
      else (c # hd (py_split sep cs)) # tl (py_split sep cs))"

text \<open>
  \<^verbatim>\<open>str(n)\<close> for an int: decimal digits, most significant first, after a minus sign
  for a negative number. Python's ints are unbounded, so they are \<open>int\<close> here (the
  interpreter's configurable limit on the number of digits of a conversion is not part of
  the model).
\<close>

definition digit_char :: "nat \<Rightarrow> char" where
  "digit_char d = ''0123456789'' ! d"

fun digits :: "nat \<Rightarrow> string" where
  "digits n = (if n < 10 then [digit_char n]
               else digits (n div 10) @ [digit_char (n mod 10)])"

declare digits.simps [simp del]

definition py_str_int :: "int \<Rightarrow> string" where
  "py_str_int n = (if n < 0 then CHR ''-'' # digits (nat (- n)) else digits (nat n))"

text \<open>
  \<^verbatim>\<open>int(s)\<close> for a string, base 10: surrounding whitespace is stripped, one sign is
  allowed, then come decimal digits, where single underscores may stand between digits.
  Anything else raises ValueError. Characters are bytes here, so the digits and the
  whitespace are the ASCII ones.
\<close>

definition is_digit :: "char \<Rightarrow> bool" where
  "is_digit c = (c \<in> set ''0123456789'')"

definition is_space :: "char \<Rightarrow> bool" where
  "is_space c = (c \<in> set [CHR '' '', CHR 0x09, CHR 0x0A, CHR 0x0B, CHR 0x0C, CHR 0x0D])"

definition py_strip :: "string \<Rightarrow> string" where
  "py_strip s = rev (dropWhile is_space (rev (dropWhile is_space s)))"

fun no_double_underscore :: "string \<Rightarrow> bool" where
  "no_double_underscore (a # b # cs) =
     (\<not> (a = CHR ''_'' \<and> b = CHR ''_'') \<and> no_double_underscore (b # cs))"
| "no_double_underscore cs = True"

definition int_literal_ok :: "string \<Rightarrow> bool" where
  "int_literal_ok ds =
     (ds \<noteq> [] \<and> list_all (\<lambda>c. is_digit c \<or> c = CHR ''_'') ds \<and> is_digit (hd ds) \<and>
      is_digit (last ds) \<and> no_double_underscore ds)"

definition digits_value :: "string \<Rightarrow> int" where
  "digits_value ds =
     foldl (\<lambda>acc c. 10 * acc + (int (of_char c) - 48)) 0 (filter (\<lambda>c. c \<noteq> CHR ''_'') ds)"

definition py_int :: "string \<Rightarrow> py_error + int" where
  "py_int s =
     (let t = py_strip s;
          neg = (t \<noteq> [] \<and> hd t = CHR ''-'');
          ds = (if t \<noteq> [] \<and> (hd t = CHR ''-'' \<or> hd t = CHR ''+'') then tl t else t)
      in if int_literal_ok ds then Inr (if neg then - digits_value ds else digits_value ds)
         else Inl ValueError)"

section \<open>The csv module, default dialect\<close>

text \<open>
  engine.py writes with \<^verbatim>\<open>csv.writer(f)\<close> and reads with
  \<^verbatim>\<open>csv.reader(f, delimiter=',')\<close>: the "excel" dialect, with delimiter \<open>,\<close>,
  quote character \<open>"\<close>, doubled quotes, line terminator CR LF, minimal quoting, no
  escape character, not strict.
\<close>

definition delimiter :: char where "delimiter = CHR '',''"
definition quotechar :: char where "quotechar = CHR 0x22"
definition lineterminator :: string where "lineterminator = [CR, LF]"

text \<open>
  The writer. A field is quoted when it holds the delimiter, the quote character or a
  character of the line terminator; a quote inside a quoted field is doubled. A row that is
  one empty field is written as two quotes. The fields arrive as strings: the caller has
  applied \<^verbatim>\<open>str\<close> to what is not a string.
\<close>

definition needs_quote :: "string \<Rightarrow> bool" where
  "needs_quote s = list_ex (\<lambda>c. c = delimiter \<or> c = quotechar \<or> c \<in> set lineterminator) s"

definition csv_field :: "string \<Rightarrow> string" where
  "csv_field s =
     (if needs_quote s
      then quotechar # concat (map (\<lambda>c. if c = quotechar then [quotechar, quotechar] else [c]) s)
           @ [quotechar]
      else s)"

fun join :: "string \<Rightarrow> string list \<Rightarrow> string" where
  "join sep [] = []"
| "join sep [x] = x"
| "join sep (x # y # ys) = x @ sep @ join sep (y # ys)"

definition writerow :: "string list \<Rightarrow> string" where
  "writerow fs =
     (if fs = [[]] then [quotechar, quotechar] else join [delimiter] (map csv_field fs))
     @ lineterminator"

definition writerows :: "string list list \<Rightarrow> string" where
  "writerows rows = concat (map writerow rows)"

text \<open>
  Fields the writer leaves as they are, and rows made of such fields, none empty. The
  header \<open>x, y\<close> and the decimal numbers of a history are of this kind.
\<close>

definition plain :: "string \<Rightarrow> bool" where
  "plain s = list_all (\<lambda>c. c \<noteq> delimiter \<and> c \<noteq> quotechar \<and> c \<noteq> CR \<and> c \<noteq> LF) s"

definition good_row :: "string list \<Rightarrow> bool" where
  "good_row fs = (fs \<noteq> [] \<and> list_all (\<lambda>f. plain f \<and> f \<noteq> []) fs)"

text \<open>
  The reader's input: the lines of a file opened with \<^verbatim>\<open>newline=''\<close>. A line ends
  at LF, at CR LF or at a lone CR, and keeps its ending; a last line may have none. The
  first argument is the line read so far.
\<close>

fun file_lines :: "string \<Rightarrow> string \<Rightarrow> string list" where
  "file_lines acc [] = (if acc = [] then [] else [acc])"
| "file_lines acc (c # cs) =
     (if c = LF then (acc @ [c]) # file_lines [] cs
      else if c = CR then
        (case cs of
           [] \<Rightarrow> [acc @ [c]]
         | d # ds \<Rightarrow> if d = LF then (acc @ [c, d]) # file_lines [] ds
                    else (acc @ [c]) # file_lines [] cs)
      else file_lines (acc @ [c]) cs)"

text \<open>
  The reader is the state machine of the csv module, restricted to the states the default
  dialect reaches (no escape character). It is fed the characters of a line and then an
  end-of-line marker, \<open>None\<close> here. A quoted field may run over several lines.
\<close>

datatype parse_state =
  START_RECORD | START_FIELD | IN_FIELD | IN_QUOTED_FIELD | QUOTE_IN_QUOTED_FIELD | EAT_CRNL

record reader =
  state :: parse_state
  field :: string
  fields_so_far :: "string list"

definition parse_reset :: reader where
  "parse_reset = \<lparr>state = START_RECORD, field = [], fields_so_far = []\<rparr>"

definition parse_save_field :: "reader \<Rightarrow> reader" where
  "parse_save_field r = r\<lparr>fields_so_far := fields_so_far r @ [field r], field := []\<rparr>"

definition parse_add_char :: "reader \<Rightarrow> char \<Rightarrow> reader" where
  "parse_add_char r c = r\<lparr>field := field r @ [c]\<rparr>"

definition end_of_field :: "reader \<Rightarrow> char option \<Rightarrow> reader" where
  "end_of_field r c =
     (parse_save_field r)\<lparr>state := (if c = None then START_RECORD else EAT_CRNL)\<rparr>"

definition is_newline :: "char option \<Rightarrow> bool" where
  "is_newline c = (c = Some LF \<or> c = Some CR)"

definition start_field :: "reader \<Rightarrow> char option \<Rightarrow> py_error + reader" where
  "start_field r c =
     (case c of
        None \<Rightarrow> Inr (end_of_field r c)
      | Some ch \<Rightarrow>
          if is_newline c then Inr (end_of_field r c)
          else if ch = quotechar then Inr (r\<lparr>state := IN_QUOTED_FIELD\<rparr>)
          else if ch = delimiter then Inr ((parse_save_field r)\<lparr>state := START_FIELD\<rparr>)
          else Inr ((parse_add_char r ch)\<lparr>state := IN_FIELD\<rparr>))"

definition parse_process_char :: "reader \<Rightarrow> char option \<Rightarrow> py_error + reader" where
  "parse_process_char r c =
     (case state r of
        START_RECORD \<Rightarrow>
          if c = None then Inr r
          else if is_newline c then Inr (r\<lparr>state := EAT_CRNL\<rparr>)
          else start_field r c
      | START_FIELD \<Rightarrow> start_field r c
      | IN_FIELD \<Rightarrow>
          (case c of
             None \<Rightarrow> Inr (end_of_field r c)
           | Some ch \<Rightarrow>
               if is_newline c then Inr (end_of_field r c)
               else if ch = delimiter then Inr ((parse_save_field r)\<lparr>state := START_FIELD\<rparr>)
               else Inr (parse_add_char r ch))
      | IN_QUOTED_FIELD \<Rightarrow>
          (case c of
             None \<Rightarrow> Inr r
           | Some ch \<Rightarrow>
               if ch = quotechar then Inr (r\<lparr>state := QUOTE_IN_QUOTED_FIELD\<rparr>)
               else Inr (parse_add_char r ch))
      | QUOTE_IN_QUOTED_FIELD \<Rightarrow>
          (case c of
             None \<Rightarrow> Inr (end_of_field r c)
           | Some ch \<Rightarrow>
               if ch = quotechar then Inr ((parse_add_char r ch)\<lparr>state := IN_QUOTED_FIELD\<rparr>)
               else if ch = delimiter then Inr ((parse_save_field r)\<lparr>state := START_FIELD\<rparr>)
               else if is_newline c then Inr (end_of_field r c)
               else Inr ((parse_add_char r ch)\<lparr>state := IN_FIELD\<rparr>))
      | EAT_CRNL \<Rightarrow>
          if is_newline c then Inr r
          else if c = None then Inr (r\<lparr>state := START_RECORD\<rparr>)
          else Inl CsvError)"

fun parse_line :: "reader \<Rightarrow> string \<Rightarrow> py_error + reader" where
  "parse_line r [] = parse_process_char r None"
| "parse_line r (c # cs) =
     (case parse_process_char r (Some c) of
        Inl e \<Rightarrow> Inl e
      | Inr r' \<Rightarrow> parse_line r' cs)"

text \<open>
  Iterating the reader: lines are fed until the state is START_RECORD again, which ends a
  row; when the lines run out inside a row, the row is returned with the field read so far.
\<close>

fun reader_rows :: "reader \<Rightarrow> string list \<Rightarrow> py_error + string list list" where
  "reader_rows r [] =
     (if field r \<noteq> [] \<or> state r = IN_QUOTED_FIELD then Inr [fields_so_far (parse_save_field r)]
      else Inr [])"
| "reader_rows r (l # ls) =
     (case parse_line r l of
        Inl e \<Rightarrow> Inl e
      | Inr r' \<Rightarrow>
          if state r' = START_RECORD then
            (case reader_rows parse_reset ls of
               Inl e \<Rightarrow> Inl e
             | Inr rows \<Rightarrow> Inr (fields_so_far r' # rows))
          else reader_rows r' ls)"

definition csv_reader :: "string \<Rightarrow> py_error + string list list" where
  "csv_reader content = reader_rows parse_reset (file_lines [] content)"

section \<open>Files and agents\<close>

text \<open>
  The file system as engine.py sees it: the text of each file by path, and whether
  \<^verbatim>\<open>open(path, 'w')\<close> succeeds there (the directory exists and may be written).
  Opening for writing replaces the file; the block under \<^verbatim>\<open>with\<close> writes the whole
  text before the file is closed.
\<close>

record filesystem =
  files :: "string \<Rightarrow> string option"
  can_create :: "string \<Rightarrow> bool"

definition open_write :: "filesystem \<Rightarrow> string \<Rightarrow> string \<Rightarrow> py_error + filesystem" where
  "open_write fs path content =
     (if can_create fs path then Inr (fs\<lparr>files := (files fs)(path \<mapsto> content)\<rparr>)
      else Inl OSError)"

type_synonym position = "int \<times> int"

text \<open>
  The class Agent lives in agent.py, which engine.py imports and which is not among the
  sources. engine.py uses four things of it, taken here as parameters: the constructor
  \<^verbatim>\<open>Agent(motiv, pos)\<close>, the method \<^verbatim>\<open>step()\<close>, the attribute
  \<^verbatim>\<open>history\<close> (a list of integer pairs) and \<^verbatim>\<open>str(agent)\<close>. A step mutates the
  agent; when it raises, it returns the exception together with the state it left.
\<close>

record ('a, 'm, 'e) agent_class =
  Agent :: "'m \<Rightarrow> position \<Rightarrow> 'a"
  step :: "'a \<Rightarrow> ('e \<times> 'a) + 'a"
  history :: "'a \<Rightarrow> position list"
  str :: "'a \<Rightarrow> string"

section \<open>save_agent_data and load_agent_data\<close>

text \<open>
  engine.py lines 216-217 and 220:
  \<^verbatim>\<open>filename = str(agent).replace(" ", "_").replace("(", "").replace(")", "")
               .replace(",", "_") + '_path_record'\<close> and
  \<^verbatim>\<open>open(dirname + '/' + filename + '.csv', 'w', newline='')\<close>.
\<close>

definition agent_filename :: "string \<Rightarrow> string" where
  "agent_filename s =
     py_replace CHR '','' ''_'' (py_replace CHR '')'' [] (py_replace CHR ''('' []
       (py_replace CHR '' '' ''_'' s)))"

definition record_path :: "string \<Rightarrow> string \<Rightarrow> string" where
  "record_path dirname agent_str =
     dirname @ ''/'' @ (agent_filename agent_str @ ''_path_record'') @ ''.csv''"

text \<open>The rows \<^verbatim>\<open>wr.writerows(agent.history)\<close> writes: each pair, its numbers as text.\<close>

definition history_rows :: "position list \<Rightarrow> string list list" where
  "history_rows h = map (\<lambda>(x, y). [py_str_int x, py_str_int y]) h"

text \<open>
  engine.py lines 191-223. The loop runs over all agents; with \<open>save\<close> false it does
  nothing. \<open>dirname\<close> may be None, and then \<^verbatim>\<open>dirname + '/'\<close> raises TypeError.
\<close>

fun save_agent_data ::
  "('a, 'm, 'e) agent_class \<Rightarrow> 'a list \<Rightarrow> bool \<Rightarrow> string option \<Rightarrow> filesystem
     \<Rightarrow> py_error + filesystem" where
  "save_agent_data cls [] save dirname fs = Inr fs"
| "save_agent_data cls (agent # agent_lst) save dirname fs =
     (if save then
        (case dirname of
           None \<Rightarrow> Inl TypeError
         | Some d \<Rightarrow>
             (case open_write fs (record_path d (str cls agent))
                     (writerow [''x'', ''y''] @ writerows (history_rows (history cls agent))) of
                Inl e \<Rightarrow> Inl e
              | Inr fs' \<Rightarrow> save_agent_data cls agent_lst save dirname fs'))
      else save_agent_data cls agent_lst save dirname fs)"

text \<open>
  engine.py lines 226-263. The assertion wants a path whose last dot-separated piece is
  \<open>csv\<close>; a missing file raises; every row after the first becomes a tuple of ints,
  \<^verbatim>\<open>list(map(lambda x: tuple(map(int, x)), lst_content[1:]))\<close>. A tuple of ints is an
  \<open>int list\<close> here, since a row may have any number of fields.
\<close>

fun ints_of_row :: "string list \<Rightarrow> py_error + int list" where
  "ints_of_row [] = Inr []"
| "ints_of_row (x # xs) =
     (case py_int x of
        Inl e \<Rightarrow> Inl e
      | Inr n \<Rightarrow> (case ints_of_row xs of Inl e \<Rightarrow> Inl e | Inr ns \<Rightarrow> Inr (n # ns)))"

fun ints_of_rows :: "string list list \<Rightarrow> py_error + int list list" where
  "ints_of_rows [] = Inr []"
| "ints_of_rows (r # rs) =
     (case ints_of_row r of
        Inl e \<Rightarrow> Inl e
      | Inr t \<Rightarrow> (case ints_of_rows rs of Inl e \<Rightarrow> Inl e | Inr ts \<Rightarrow> Inr (t # ts)))"

definition load_agent_data :: "filesystem \<Rightarrow> string option \<Rightarrow> py_error + int list list" where
  "load_agent_data fs path =
     (case path of
        None \<Rightarrow> Inl AssertionError
      | Some p \<Rightarrow>
          if last (py_split CHR ''.'' p) \<noteq> ''csv'' then Inl AssertionError
          else
            (case files fs p of
               None \<Rightarrow> Inl FileNotFoundError
             | Some content \<Rightarrow>
                 (case csv_reader content of
                    Inl e \<Rightarrow> Inl e
                  | Inr lst_content \<Rightarrow> ints_of_rows (tl lst_content))))"

section \<open>run_experiment\<close>

text \<open>
  What a run does besides changing agents and files is recorded as a list of events, in
  order: each call of \<^verbatim>\<open>agent.step()\<close> (the agent's index in the list and the
  iteration), the two prints of the exception handler (line 173-174), the progress bar
  (line 181, with the agent's number, the number of agents, the iteration and the iteration
  count it is drawn from), the newline after an agent (line 182), and the two calls that end
  a run, \<^verbatim>\<open>plot_paths\<close> and \<^verbatim>\<open>save_agent_data\<close>, with their arguments.
  \<^verbatim>\<open>plot_paths\<close> only draws with matplotlib; the map is handed to it unchanged.
\<close>

datatype ('a, 'e) event =
    StepCall nat nat
  | PrintProblem nat 'a 'e
  | PrintProgress nat nat nat int
  | PrintNewline
  | PlotPaths "'a list" bool bool "string option"
  | SaveAgentData "'a list" bool "string option"

text \<open>
  The inner loop, lines 167-181, for the agent of index \<open>k\<close> over the iterations still to
  run:
  \<^verbatim>\<open>for i in range(iterations):
      try: agent.step()
      except Exception as e:
          print('Problem at step ', i, " with agent:", agent); print(e); return\<close>
  The result says whether every step returned, the agent as the loop left it, and the
  events.
\<close>

fun step_loop ::
  "('a, 'm, 'e) agent_class \<Rightarrow> nat \<Rightarrow> nat \<Rightarrow> int \<Rightarrow> nat list \<Rightarrow> 'a
     \<Rightarrow> bool \<times> 'a \<times> ('a, 'e) event list" where
  "step_loop cls k num_agents iterations [] agent = (True, agent, [])"
| "step_loop cls k num_agents iterations (i # is) agent =
     (case step cls agent of
        Inl (e, agent') \<Rightarrow> (False, agent', [StepCall k i, PrintProblem i agent' e])
      | Inr agent' \<Rightarrow>
          (case step_loop cls k num_agents iterations is agent' of
             (ok, agent'', evs) \<Rightarrow>
               (ok, agent'', StepCall k i # PrintProgress (Suc k) num_agents i iterations # evs)))"

text \<open>
  The outer loop, line 166: \<^verbatim>\<open>for agent in agent_lst\<close>. \<open>range(iterations)\<close> is
  \<open>[0..<nat iterations]\<close>, empty for a count that is not positive. The
  \<^verbatim>\<open>return\<close> of the handler leaves the whole function, so the agents after a failed
  one are never stepped.
\<close>

fun agents_loop ::
  "('a, 'm, 'e) agent_class \<Rightarrow> nat \<Rightarrow> nat \<Rightarrow> int \<Rightarrow> 'a list
     \<Rightarrow> bool \<times> 'a list \<times> ('a, 'e) event list" where
  "agents_loop cls k num_agents iterations [] = (True, [], [])"
| "agents_loop cls k num_agents iterations (agent # agent_lst) =
     (case step_loop cls k num_agents iterations [0..<nat iterations] agent of
        (False, agent', evs) \<Rightarrow> (False, agent' # agent_lst, evs)
      | (True, agent', evs) \<Rightarrow>
          (case agents_loop cls (Suc k) num_agents iterations agent_lst of
             (ok, agent_lst', evs') \<Rightarrow> (ok, agent' # agent_lst', evs @ PrintNewline # evs')))"

record ('a, 'e) run =
  agents :: "'a list"
  trace :: "('a, 'e) event list"
  disk :: filesystem

text \<open>
  engine.py lines 116-188. The two assertions come first (lines 153-154); the agents are
  built from the zipped lists (lines 159-160); then the loops; then, unless a step raised,
  \<^verbatim>\<open>plot_paths(map, agent_lst, show, saveGraph, dirname)\<close> and
  \<^verbatim>\<open>save_agent_data(agent_lst, saveLocation, dirname)\<close>. The function returns None
  either way; the model returns the agents, the events and the files.
\<close>

definition run_experiment ::
  "('a, 'm, 'e) agent_class \<Rightarrow> 'm list \<Rightarrow> position list \<Rightarrow> 'mp \<Rightarrow> int \<Rightarrow> bool \<Rightarrow> bool \<Rightarrow> bool
     \<Rightarrow> string option \<Rightarrow> filesystem \<Rightarrow> py_error + ('a, 'e) run" where
  "run_experiment cls motivation_lst position_lst mp iterations show saveGraph saveLocation
       dirname fs =
     (if length motivation_lst \<noteq> length position_lst then Inl AssertionError
      else if \<not> ((saveGraph = False \<and> saveLocation = False) \<or> dirname \<noteq> None)
        then Inl AssertionError
      else
        (let agent_lst = map (\<lambda>(motiv, pos). Agent cls motiv pos) (zip motivation_lst position_lst)
         in case agents_loop cls 0 (length agent_lst) iterations agent_lst of
              (False, agent_lst', evs) \<Rightarrow> Inr \<lparr>agents = agent_lst', trace = evs, disk = fs\<rparr>
            | (True, agent_lst', evs) \<Rightarrow>
                (case save_agent_data cls agent_lst' saveLocation dirname fs of
                   Inl e \<Rightarrow> Inl e
                 | Inr fs' \<Rightarrow>
                     Inr \<lparr>agents = agent_lst',
                          trace = evs @ [PlotPaths agent_lst' show saveGraph dirname,
                                         SaveAgentData agent_lst' saveLocation dirname],
                          disk = fs'\<rparr>)))"

subsection \<open>Reading a trace\<close>

definition step_calls :: "('a, 'e) event list \<Rightarrow> (nat \<times> nat) list" where
  "step_calls evs = concat (map (\<lambda>ev. case ev of StepCall k i \<Rightarrow> [(k, i)] | _ \<Rightarrow> []) evs)"

definition plot_paths_invoked :: "('a, 'e) event list \<Rightarrow> bool" where
  "plot_paths_invoked evs = list_ex (\<lambda>ev. case ev of PlotPaths as sh sv d \<Rightarrow> True | _ \<Rightarrow> False) evs"

definition save_agent_data_invoked :: "('a, 'e) event list \<Rightarrow> bool" where
  "save_agent_data_invoked evs = list_ex (\<lambda>ev. case ev of SaveAgentData as sv d \<Rightarrow> True | _ \<Rightarrow> False) evs"

text \<open>
  The order in which \<open>n\<close> agents are stepped when each finishes its iterations before the
  next one starts: all iterations of agent 0, then all of agent 1, and so on.
\<close>

definition sequential_schedule :: "nat \<Rightarrow> int \<Rightarrow> (nat \<times> nat) list" where
  "sequential_schedule n iterations =
     concat (map (\<lambda>k. map (\<lambda>i. (k, i)) [0..<nat iterations]) [0..<n])"

text \<open>
  What the steps of one agent do on their own, without the engine: the agent after all the
  iterations, or the first iteration whose step raises, with the exception and the agent as
  that step left it.
\<close>

fun run_steps :: "('a \<Rightarrow> ('e \<times> 'a) + 'a) \<Rightarrow> nat list \<Rightarrow> 'a \<Rightarrow> (nat \<times> 'e \<times> 'a) + 'a" where
  "run_steps st [] a = Inr a"
| "run_steps st (i # is) a =
     (case st a of Inl (e, a') \<Rightarrow> Inl (i, e, a') | Inr a' \<Rightarrow> run_steps st is a')"

text \<open>The events of iterations that all return, and of agents that all finish.\<close>

definition progress_events :: "nat \<Rightarrow> nat \<Rightarrow> int \<Rightarrow> nat list \<Rightarrow> ('a, 'e) event list" where
  "progress_events k num_agents iterations is =
     concat (map (\<lambda>i. [StepCall k i, PrintProgress (Suc k) num_agents i iterations]) is)"

definition completed_events :: "nat \<Rightarrow> nat \<Rightarrow> int \<Rightarrow> nat \<Rightarrow> ('a, 'e) event list" where
  "completed_events k num_agents iterations m =
     concat (map (\<lambda>j. progress_events (k + j) num_agents iterations [0..<nat iterations]
                        @ [PrintNewline]) [0..<m])"

section \<open>Experience and the two memories\<close>

text \<open>
  Modelled from the spec: the class Experience (experience.py is not among the sources;
  src/testing.py imports it). The spec, section 3: an Experience has a \<open>novelty\<close>, a
  real-valued scalar and the sole ordering key, and a \<open>payload\<close>, opaque associated data.
\<close>

record 'p Experience =
  novelty :: real
  payload :: 'p

text \<open>
  Modelled from the spec: the state of a Memory (list_based_memory.py and
  priority_based_memory.py are not among the sources; src/testing.py imports them). The
  spec, section 3: a fixed \<open>capacity\<close> and the current collection of Experiences. The
  collection is kept in insertion order, oldest first.
\<close>

record 'p Memory =
  capacity :: nat
  items :: "'p Experience list"

text \<open>Modelled from the spec: the accessor \<open>size()\<close> of section 4.2.\<close>

definition memory_size :: "'p Memory \<Rightarrow> nat" where
  "memory_size m = length (items m)"

text \<open>
  Modelled from the spec: ListBasedMemory, section 4.2. \<open>push(e)\<close> "inserts \<open>e\<close>. If
  resulting size exceeds \<open>capacity\<close>, evicts exactly one entry per the variant's policy
  before returning"; the policy "removes the earliest-inserted surviving entry";
  \<open>as_list()\<close> "returns entries in insertion order (oldest first)". A new memory is empty,
  as in \<^verbatim>\<open>ListBasedMemory(5)\<close> of src/testing.py.
\<close>

definition ListBasedMemory :: "nat \<Rightarrow> 'p Memory" where
  "ListBasedMemory c = \<lparr>capacity = c, items = []\<rparr>"

definition list_push :: "'p Memory \<Rightarrow> 'p Experience \<Rightarrow> 'p Memory" where
  "list_push m e =
     (let xs = items m @ [e]
      in m\<lparr>items := (if capacity m < length xs then tl xs else xs)\<rparr>)"

definition list_as_list :: "'p Memory \<Rightarrow> 'p Experience list" where
  "list_as_list m = items m"

text \<open>
  Modelled from the spec: PriorityBasedMemory, section 4.2. After the insertion, when the
  size exceeds the capacity, the policy "removes the entry with the minimum \<open>novelty\<close>
  among current contents; ties broken by insertion order (oldest of the tied entries
  evicted first)"; \<open>as_list()\<close> "returns entries ordered by \<open>novelty\<close> descending".
  The entry just pushed is among the current contents, so it is the one evicted when its
  novelty is the lowest.
\<close>

definition PriorityBasedMemory :: "nat \<Rightarrow> 'p Memory" where
  "PriorityBasedMemory c = \<lparr>capacity = c, items = []\<rparr>"

fun remove_first :: "('a \<Rightarrow> bool) \<Rightarrow> 'a list \<Rightarrow> 'a list" where
  "remove_first P [] = []"
| "remove_first P (x # xs) = (if P x then xs else x # remove_first P xs)"

definition evict_min :: "'p Experience list \<Rightarrow> 'p Experience list" where
  "evict_min xs = remove_first (\<lambda>e. novelty e = Min (set (map novelty xs))) xs"

definition priority_push :: "'p Memory \<Rightarrow> 'p Experience \<Rightarrow> 'p Memory" where
  "priority_push m e =
     (let xs = items m @ [e]
      in m\<lparr>items := (if capacity m < length xs then evict_min xs else xs)\<rparr>)"

definition priority_as_list :: "'p Memory \<Rightarrow> 'p Experience list" where
  "priority_as_list m = rev (sort_key novelty (items m))"

section \<open>Concrete inputs\<close>

text \<open>
  A file system with no files where every file can be created; agents that can take as many
  steps as their motivation, a number, allows and then raise, each step moving one to the
  right and one up; and the six experiences of src/testing.py,
  \<^verbatim>\<open>Experience(i, None) for i in range(6)\<close>.
\<close>

definition test_fs :: filesystem where
  "test_fs = \<lparr>files = (\<lambda>p. None), can_create = (\<lambda>p. True)\<rparr>"

definition budget_agents :: "(nat \<times> nat \<times> position list, nat, string) agent_class" where
  "budget_agents =
     \<lparr>Agent = (\<lambda>budget pos. (0, budget, [pos])),
      step = (\<lambda>(n, budget, h).
                if n < budget then Inr (Suc n, budget, h @ [(fst (last h) + 1, snd (last h) - 1)])
                else Inl (''no valid move'', (n, budget, h))),
      history = (\<lambda>(n, budget, h). h),
      str = (\<lambda>(n, budget, h). ''Agent'' @ digits budget)\<rparr>"

definition test_experiences :: "unit Experience list" where
  "test_experiences = map (\<lambda>i. \<lparr>novelty = real i, payload = ()\<rparr>) [0..<6]"

section \<open>Numbers as text and back\<close>

lemma digit_char_props:
  assumes "d < 10"
  shows "is_digit (digit_char d)" and "int (of_char (digit_char d)) - 48 = int d"
proof -
  have "d \<in> {0, 1, 2, 3, 4, 5, 6, 7, 8, 9}" using assms by auto
  then show "is_digit (digit_char d)" and "int (of_char (digit_char d)) - 48 = int d"
    by (auto simp: digit_char_def is_digit_def)
qed

lemma is_digit_plain:
  assumes "is_digit c"
  shows "c \<noteq> CHR ''_''" "c \<noteq> CHR ''-''" "c \<noteq> CHR ''+''" "\<not> is_space c"
    "c \<noteq> delimiter" "c \<noteq> quotechar" "c \<noteq> CR" "c \<noteq> LF"
  using assms
  by (auto simp: is_digit_def is_space_def delimiter_def quotechar_def CR_def LF_def)

lemma digits_all_digit: "list_all is_digit (digits n)"
proof (induction n rule: digits.induct)
  case (1 n)
  show ?case
  proof (cases "n < 10")
    case True
    then show ?thesis by (simp add: digits.simps [of n] digit_char_props)
  next
    case False
    then show ?thesis using 1 by (simp add: digits.simps [of n] digit_char_props)
  qed
qed

lemma digits_nonempty: "digits n \<noteq> []"
  by (simp add: digits.simps [of n])

lemma digits_value_snoc:
  "c \<noteq> CHR ''_'' \<Longrightarrow> digits_value (ds @ [c]) = 10 * digits_value ds + (int (of_char c) - 48)"
  by (simp add: digits_value_def)

lemma digits_value_digits: "digits_value (digits n) = int n"
proof (induction n rule: digits.induct)
  case (1 n)
  show ?case
  proof (cases "n < 10")
    case True
    then show ?thesis
      using digits_value_snoc [of "digit_char n" "[]"]
      by (simp add: digits.simps [of n] digit_char_props is_digit_plain digits_value_def)
  next
    case False
    have d: "n mod 10 < 10" by simp
    have "digits_value (digits n) = 10 * digits_value (digits (n div 10)) + int (n mod 10)"
      using False digits_value_snoc [of "digit_char (n mod 10)" "digits (n div 10)"]
      by (simp add: digits.simps [of n] digit_char_props [OF d] is_digit_plain)
    then show ?thesis using 1 False by (simp add: zmod_int zdiv_int)
  qed
qed

lemma no_double_underscore_digits: "list_all is_digit ds \<Longrightarrow> no_double_underscore ds"
  by (induction ds rule: no_double_underscore.induct) (auto simp: is_digit_plain)

lemma int_literal_ok_digits:
  assumes "list_all is_digit ds" "ds \<noteq> []"
  shows "int_literal_ok ds"
proof -
  have "is_digit (hd ds)" "is_digit (last ds)"
    using assms by (auto simp: list_all_iff)
  moreover have "list_all (\<lambda>c. is_digit c \<or> c = CHR ''_'') ds"
    using assms(1) by (auto simp: list_all_iff)
  ultimately show ?thesis
    using assms no_double_underscore_digits by (simp add: int_literal_ok_def)
qed

lemma py_strip_id:
  assumes "s \<noteq> []" "\<not> is_space (hd s)" "\<not> is_space (last s)"
  shows "py_strip s = s"
proof -
  have 1: "dropWhile is_space s = s" using assms by (cases s) auto
  have "rev s \<noteq> []" "\<not> is_space (hd (rev s))" using assms by (auto simp: hd_rev)
  then have 2: "dropWhile is_space (rev s) = rev s" by (cases "rev s") auto
  show ?thesis by (simp add: py_strip_def 1 2)
qed

lemma py_int_str_int: "py_int (py_str_int n) = Inr n"
proof -
  define ds where "ds = digits (nat \<bar>n\<bar>)"
  have all: "list_all is_digit ds" and ne: "ds \<noteq> []"
    by (simp_all add: ds_def digits_all_digit digits_nonempty)
  have ok: "int_literal_ok ds" using all ne by (rule int_literal_ok_digits)
  have val: "digits_value ds = \<bar>n\<bar>" by (simp add: ds_def digits_value_digits)
  have hd_d: "is_digit (hd ds)" and last_d: "is_digit (last ds)"
    using all ne by (auto simp: list_all_iff)
  show ?thesis
  proof (cases "n < 0")
    case True
    then have s: "py_str_int n = CHR ''-'' # ds" by (simp add: py_str_int_def ds_def)
    have "\<not> is_space CHR ''-''" by (simp add: is_space_def)
    moreover have "\<not> is_space (last ds)" using last_d by (rule is_digit_plain)
    ultimately have "py_strip (CHR ''-'' # ds) = CHR ''-'' # ds"
      using ne by (intro py_strip_id) simp_all
    then show ?thesis using True ok val by (simp add: py_int_def s)
  next
    case False
    then have s: "py_str_int n = ds" by (simp add: py_str_int_def ds_def)
    have "py_strip ds = ds"
      using ne hd_d last_d by (intro py_strip_id) (auto simp: is_digit_plain)
    then show ?thesis using False ok val ne is_digit_plain(2,3) [OF hd_d]
      by (simp add: py_int_def s)
  qed
qed

lemma plain_str_int: "plain (py_str_int n)" "py_str_int n \<noteq> []"
proof -
  have "list_all is_digit (digits m)" for m by (rule digits_all_digit)
  then have "plain (digits m)" for m
    by (auto simp: plain_def list_all_iff is_digit_plain)
  moreover have "plain [CHR ''-'']"
    by (simp add: plain_def delimiter_def quotechar_def CR_def LF_def)
  ultimately show "plain (py_str_int n)"
    by (auto simp: py_str_int_def plain_def)
  show "py_str_int n \<noteq> []" by (simp add: py_str_int_def digits_nonempty)
qed

lemma ints_of_rows_history: "ints_of_rows (history_rows h) = Inr (map (\<lambda>(x, y). [x, y]) h)"
  by (induction h) (auto simp: history_rows_def py_int_str_int)

lemma py_split_append_sep:
  "sep \<notin> set s \<Longrightarrow> last (py_split sep (p @ sep # s)) = s"
proof (induction p)
  case Nil
  have "py_split sep s = [s]" using Nil by (induction s) auto
  then show ?case by simp
next
  case (Cons c p)
  have ne: "py_split sep xs \<noteq> []" for xs by (induction xs) auto
  have tl_ne: "tl (py_split sep (p @ sep # s)) \<noteq> []"
    by (induction p) (auto simp: ne)
  show ?case using Cons tl_ne ne [of "p @ sep # s"]
    by (auto simp: last_tl)
qed

lemma record_path_is_csv: "last (py_split CHR ''.'' (record_path d s)) = ''csv''"
proof -
  have ns: "CHR ''.'' \<notin> set ''csv''" by simp
  have "last (py_split CHR ''.''
          ((d @ ''/'' @ agent_filename s @ ''_path_record'') @ CHR ''.'' # ''csv'')) = ''csv''"
    by (rule py_split_append_sep [OF ns])
  then show ?thesis by (simp add: record_path_def)
qed

section \<open>What the reader makes of the writer's output\<close>

lemma csv_field_plain: "plain f \<Longrightarrow> csv_field f = f"
  by (auto simp: csv_field_def needs_quote_def plain_def lineterminator_def list_all_iff list_ex_iff)

lemma writerow_good:
  assumes "good_row fs"
  shows "writerow fs = join [delimiter] fs @ [CR, LF]"
proof -
  have "map csv_field fs = fs"
    using assms by (auto simp: good_row_def list_all_iff csv_field_plain intro: map_idI)
  moreover have "fs \<noteq> [[]]" using assms by (auto simp: good_row_def)
  ultimately show ?thesis by (simp add: writerow_def lineterminator_def)
qed

lemma CR_neq_LF [simp]: "CR \<noteq> LF" "LF \<noteq> CR"
  by (simp_all add: CR_def LF_def)

lemma file_lines_crlf:
  "CR \<notin> set b \<Longrightarrow> LF \<notin> set b \<Longrightarrow>
   file_lines acc (b @ CR # LF # rest) = (acc @ b @ [CR, LF]) # file_lines [] rest"
  by (induction b arbitrary: acc) auto

lemma file_lines_concat:
  "list_all (\<lambda>b. CR \<notin> set b \<and> LF \<notin> set b) bs \<Longrightarrow>
   file_lines [] (concat (map (\<lambda>b. b @ [CR, LF]) bs)) = map (\<lambda>b. b @ [CR, LF]) bs"
proof (induction bs)
  case Nil
  show ?case by simp
next
  case (Cons b bs)
  have "file_lines [] (b @ CR # LF # concat (map (\<lambda>b. b @ [CR, LF]) bs))
          = ([] @ b @ [CR, LF]) # file_lines [] (concat (map (\<lambda>b. b @ [CR, LF]) bs))"
    using Cons.prems by (intro file_lines_crlf) auto
  then show ?case using Cons by simp
qed

lemma parse_in_field:
  "state r = IN_FIELD \<Longrightarrow> plain cs \<Longrightarrow>
   parse_line r (cs @ rest) = parse_line (r\<lparr>field := field r @ cs\<rparr>) rest"
proof (induction cs arbitrary: r)
  case Nil
  then show ?case by simp
next
  case (Cons c cs)
  have c: "c \<noteq> delimiter" "c \<noteq> quotechar" "c \<noteq> CR" "c \<noteq> LF" and cs: "plain cs"
    using Cons.prems(2) by (auto simp: plain_def)
  have step1: "parse_process_char r (Some c) = Inr (parse_add_char r c)"
    using Cons.prems(1) c by (simp add: parse_process_char_def is_newline_def)
  have st: "state (parse_add_char r c) = IN_FIELD"
    using Cons.prems(1) by (simp add: parse_add_char_def)
  show ?case
    using Cons.IH [OF st cs] step1 by (simp add: parse_add_char_def)
qed

lemma parse_field_start:
  assumes "state r = START_RECORD \<or> state r = START_FIELD" and "plain (c # cs)"
  shows "parse_line r ((c # cs) @ rest)
           = parse_line (r\<lparr>state := IN_FIELD, field := field r @ c # cs\<rparr>) rest"
proof -
  have c: "c \<noteq> delimiter" "c \<noteq> quotechar" "c \<noteq> CR" "c \<noteq> LF" and cs: "plain cs"
    using assms(2) by (auto simp: plain_def)
  let ?r1 = "(parse_add_char r c)\<lparr>state := IN_FIELD\<rparr>"
  have step1: "parse_process_char r (Some c) = Inr ?r1"
    using assms(1) c by (auto simp: parse_process_char_def start_field_def is_newline_def)
  have "parse_line ?r1 (cs @ rest) = parse_line (?r1\<lparr>field := field ?r1 @ cs\<rparr>) rest"
    using cs by (intro parse_in_field) simp_all
  then show ?thesis using step1 by (simp add: parse_add_char_def)
qed

lemma parse_good_row:
  assumes "good_row fs" and "s = START_RECORD \<or> s = START_FIELD"
  shows "parse_line \<lparr>state = s, field = [], fields_so_far = acc\<rparr>
           (join [delimiter] fs @ [CR, LF])
         = Inr \<lparr>state = START_RECORD, field = [], fields_so_far = acc @ fs\<rparr>"
  using assms
proof (induction fs arbitrary: s acc)
  case Nil
  then show ?case by (simp add: good_row_def)
next
  case (Cons f gs)
  then obtain c cs where f: "f = c # cs" and pl: "plain (c # cs)"
    by (cases f) (auto simp: good_row_def)
  let ?r = "\<lparr>state = s, field = [], fields_so_far = acc\<rparr>"
  show ?case
  proof (cases gs)
    case Nil
    have "parse_line ?r ((c # cs) @ [CR, LF])
            = parse_line (?r\<lparr>state := IN_FIELD, field := field ?r @ c # cs\<rparr>) [CR, LF]"
      using Cons.prems(2) pl by (intro parse_field_start) simp_all
    then show ?thesis
      by (simp add: Nil f parse_process_char_def is_newline_def end_of_field_def
            parse_save_field_def)
  next
    case (Cons g gs')
    have good: "good_row gs" using Cons.prems(1) Cons by (simp add: good_row_def)
    let ?rest = "delimiter # join [delimiter] gs @ [CR, LF]"
    have "parse_line ?r ((c # cs) @ ?rest)
            = parse_line (?r\<lparr>state := IN_FIELD, field := field ?r @ c # cs\<rparr>) ?rest"
      using Cons.prems(2) pl by (intro parse_field_start) simp_all
    also have "\<dots> = parse_line \<lparr>state = START_FIELD, field = [], fields_so_far = acc @ [f]\<rparr>
                       (join [delimiter] gs @ [CR, LF])"
      by (simp add: f parse_process_char_def is_newline_def parse_save_field_def
            delimiter_def CR_def LF_def)
    also have "\<dots> = Inr \<lparr>state = START_RECORD, field = [], fields_so_far = (acc @ [f]) @ gs\<rparr>"
      using good by (intro Cons.IH) simp_all
    finally show ?thesis by (simp add: f Cons)
  qed
qed

lemma join_plain_no_newline:
  "good_row fs \<Longrightarrow> CR \<notin> set (join [delimiter] fs) \<and> LF \<notin> set (join [delimiter] fs)"
proof (induction fs)
  case Nil
  then show ?case by simp
next
  case (Cons f gs)
  have f: "CR \<notin> set f" "LF \<notin> set f"
    using Cons.prems by (auto simp: good_row_def plain_def list_all_iff)
  show ?case
  proof (cases gs)
    case Nil
    then show ?thesis using f by simp
  next
    case (Cons g gs')
    then have "good_row gs" using Cons.prems by (simp add: good_row_def)
    then show ?thesis using Cons.IH f Cons by (auto simp: delimiter_def CR_def LF_def)
  qed
qed

lemma reader_rows_good:
  "list_all good_row rows \<Longrightarrow>
   reader_rows parse_reset (map (\<lambda>fs. join [delimiter] fs @ [CR, LF]) rows) = Inr rows"
proof (induction rows)
  case Nil
  show ?case by (simp add: parse_reset_def)
next
  case (Cons fs rows)
  have "parse_line parse_reset (join [delimiter] fs @ [CR, LF])
          = Inr \<lparr>state = START_RECORD, field = [], fields_so_far = [] @ fs\<rparr>"
    unfolding parse_reset_def using Cons.prems by (intro parse_good_row) simp_all
  then show ?case using Cons by simp
qed

lemma csv_reader_writerows:
  assumes "list_all good_row rows"
  shows "csv_reader (writerows rows) = Inr rows"
proof -
  have w: "writerows rows = concat (map (\<lambda>b. b @ [CR, LF]) (map (join [delimiter]) rows))"
    using assms by (induction rows) (simp_all add: writerows_def writerow_good)
  have "list_all (\<lambda>b. CR \<notin> set b \<and> LF \<notin> set b) (map (join [delimiter]) rows)"
    using assms join_plain_no_newline by (auto simp: list_all_iff)
  then have "file_lines [] (writerows rows)
               = map (\<lambda>b. b @ [CR, LF]) (map (join [delimiter]) rows)"
    unfolding w by (rule file_lines_concat)
  then show ?thesis
    using reader_rows_good [OF assms] by (simp add: csv_reader_def comp_def)
qed

section \<open>Exporting and loading\<close>

lemma save_agent_data_frame:
  assumes "\<forall>b\<in>set agent_lst. can_create fs (record_path d (str cls b))"
  shows "\<exists>fs'. save_agent_data cls agent_lst True (Some d) fs = Inr fs' \<and>
           can_create fs' = can_create fs \<and>
           (\<forall>p. p \<notin> (\<lambda>b. record_path d (str cls b)) ` set agent_lst \<longrightarrow> files fs' p = files fs p)"
  using assms
proof (induction agent_lst arbitrary: fs)
  case Nil
  show ?case by simp
next
  case (Cons a agent_lst)
  let ?fs1 = "fs\<lparr>files := (files fs)(record_path d (str cls a) \<mapsto>
                writerow [''x'', ''y''] @ writerows (history_rows (history cls a)))\<rparr>"
  have "\<forall>b\<in>set agent_lst. can_create ?fs1 (record_path d (str cls b))"
    using Cons.prems by simp
  from Cons.IH [OF this] obtain fs' where
    fs': "save_agent_data cls agent_lst True (Some d) ?fs1 = Inr fs'"
      "can_create fs' = can_create ?fs1"
      "\<forall>p. p \<notin> (\<lambda>b. record_path d (str cls b)) ` set agent_lst \<longrightarrow> files fs' p = files ?fs1 p"
    by blast
  have "save_agent_data cls (a # agent_lst) True (Some d) fs = Inr fs'"
    using Cons.prems fs'(1) by (simp add: open_write_def)
  moreover have "can_create fs' = can_create fs" using fs'(2) by simp
  moreover have "\<forall>p. p \<notin> (\<lambda>b. record_path d (str cls b)) ` set (a # agent_lst)
                   \<longrightarrow> files fs' p = files fs p"
    using fs'(3) by auto
  ultimately show ?case by blast
qed

lemma save_agent_data_file:
  assumes "\<forall>b\<in>set (before @ a # after). can_create fs (record_path d (str cls b))"
    and "\<forall>b\<in>set after. record_path d (str cls b) \<noteq> record_path d (str cls a)"
  shows "\<exists>fs'. save_agent_data cls (before @ a # after) True (Some d) fs = Inr fs' \<and>
           files fs' (record_path d (str cls a))
             = Some (writerow [''x'', ''y''] @ writerows (history_rows (history cls a)))"
  using assms(1)
proof (induction before arbitrary: fs)
  case Nil
  let ?fs1 = "fs\<lparr>files := (files fs)(record_path d (str cls a) \<mapsto>
                writerow [''x'', ''y''] @ writerows (history_rows (history cls a)))\<rparr>"
  have "\<forall>b\<in>set after. can_create ?fs1 (record_path d (str cls b))"
    using Nil by simp
  from save_agent_data_frame [OF this] obtain fs' where
    fs': "save_agent_data cls after True (Some d) ?fs1 = Inr fs'"
      "\<forall>p. p \<notin> (\<lambda>b. record_path d (str cls b)) ` set after \<longrightarrow> files fs' p = files ?fs1 p"
    by blast
  have "record_path d (str cls a) \<notin> (\<lambda>b. record_path d (str cls b)) ` set after"
    using assms(2) by auto
  then have "files fs' (record_path d (str cls a)) = files ?fs1 (record_path d (str cls a))"
    using fs'(2) by blast
  moreover have "save_agent_data cls ([] @ a # after) True (Some d) fs = Inr fs'"
    using Nil fs'(1) by (simp add: open_write_def)
  ultimately show ?case by simp
next
  case (Cons b before)
  let ?fs1 = "fs\<lparr>files := (files fs)(record_path d (str cls b) \<mapsto>
                writerow [''x'', ''y''] @ writerows (history_rows (history cls b)))\<rparr>"
  have "\<forall>c\<in>set (before @ a # after). can_create ?fs1 (record_path d (str cls c))"
    using Cons.prems by simp
  from Cons.IH [OF this] obtain fs' where
    "save_agent_data cls (before @ a # after) True (Some d) ?fs1 = Inr fs'"
    "files fs' (record_path d (str cls a))
       = Some (writerow [''x'', ''y''] @ writerows (history_rows (history cls a)))"
    by blast
  moreover have "can_create fs (record_path d (str cls b))" using Cons.prems by simp
  ultimately show ?case by (simp add: open_write_def)
qed

lemma good_history_rows: "list_all good_row ([''x'', ''y''] # history_rows h)"
proof -
  have "good_row [''x'', ''y'']"
    by (simp add: good_row_def plain_def delimiter_def quotechar_def CR_def LF_def)
  moreover have "list_all good_row (history_rows h)"
    by (auto simp: history_rows_def good_row_def list_all_iff plain_str_int)
  ultimately show ?thesis by simp
qed

lemma export_text:
  "writerow [''x'', ''y''] @ writerows (history_rows h)
     = ''x,y'' @ [CR, LF]
       @ concat (map (\<lambda>(x, y). py_str_int x @ '','' @ py_str_int y @ [CR, LF]) h)"
proof -
  have "good_row [''x'', ''y'']" using good_history_rows [of "[]"] by simp
  then have hd: "writerow [''x'', ''y''] = ''x,y'' @ [CR, LF]"
    by (simp add: writerow_good delimiter_def)
  have "good_row [py_str_int x, py_str_int y]" for x y
    by (simp add: good_row_def plain_str_int)
  then have "writerows (history_rows h)
               = concat (map (\<lambda>(x, y). py_str_int x @ '','' @ py_str_int y @ [CR, LF]) h)"
    by (induction h) (auto simp: writerows_def history_rows_def writerow_good delimiter_def)
  then show ?thesis using hd by simp
qed

lemma load_exported:
  assumes "files fs (record_path d s)
             = Some (writerow [''x'', ''y''] @ writerows (history_rows h))"
  shows "load_agent_data fs (Some (record_path d s)) = Inr (map (\<lambda>(x, y). [x, y]) h)"
proof -
  have "writerow [''x'', ''y''] @ writerows (history_rows h)
          = writerows ([''x'', ''y''] # history_rows h)"
    by (simp add: writerows_def)
  then have "csv_reader (writerow [''x'', ''y''] @ writerows (history_rows h))
               = Inr ([''x'', ''y''] # history_rows h)"
    using csv_reader_writerows [OF good_history_rows [of h]] by simp
  then show ?thesis
    using assms by (simp add: load_agent_data_def record_path_is_csv ints_of_rows_history)
qed

lemma save_agent_data_no_assert:
  "save_agent_data cls agent_lst save dirname fs \<noteq> Inl AssertionError"
  by (induction agent_lst arbitrary: fs)
     (auto simp: open_write_def split: option.splits sum.splits)

section \<open>The loops of run_experiment\<close>

lemma step_calls_simps [simp]:
  "step_calls [] = []"
  "step_calls (StepCall k i # evs) = (k, i) # step_calls evs"
  "step_calls (PrintProblem i a e # evs) = step_calls evs"
  "step_calls (PrintProgress c n i it # evs) = step_calls evs"
  "step_calls (PrintNewline # evs) = step_calls evs"
  "step_calls (PlotPaths as sh sv d # evs) = step_calls evs"
  "step_calls (SaveAgentData as sv d # evs) = step_calls evs"
  "step_calls (xs @ ys) = step_calls xs @ step_calls ys"
  by (simp_all add: step_calls_def)

lemma plot_paths_invoked_simps [simp]:
  "plot_paths_invoked [] = False"
  "plot_paths_invoked (StepCall k i # evs) = plot_paths_invoked evs"
  "plot_paths_invoked (PrintProblem i a e # evs) = plot_paths_invoked evs"
  "plot_paths_invoked (PrintProgress c n i it # evs) = plot_paths_invoked evs"
  "plot_paths_invoked (PrintNewline # evs) = plot_paths_invoked evs"
  "plot_paths_invoked (PlotPaths as sh sv d # evs) = True"
  "plot_paths_invoked (SaveAgentData as sv d # evs) = plot_paths_invoked evs"
  "plot_paths_invoked (xs @ ys) = (plot_paths_invoked xs \<or> plot_paths_invoked ys)"
  by (simp_all add: plot_paths_invoked_def)

lemma save_agent_data_invoked_simps [simp]:
  "save_agent_data_invoked [] = False"
  "save_agent_data_invoked (StepCall k i # evs) = save_agent_data_invoked evs"
  "save_agent_data_invoked (PrintProblem i a e # evs) = save_agent_data_invoked evs"
  "save_agent_data_invoked (PrintProgress c n i it # evs) = save_agent_data_invoked evs"
  "save_agent_data_invoked (PrintNewline # evs) = save_agent_data_invoked evs"
  "save_agent_data_invoked (PlotPaths as sh sv d # evs) = save_agent_data_invoked evs"
  "save_agent_data_invoked (SaveAgentData as sv d # evs) = True"
  "save_agent_data_invoked (xs @ ys) = (save_agent_data_invoked xs \<or> save_agent_data_invoked ys)"
  by (simp_all add: save_agent_data_invoked_def)

lemma progress_events_facts [simp]:
  "step_calls (progress_events k n it is :: ('a, 'e) event list) = map (Pair k) is"
  "\<not> plot_paths_invoked (progress_events k n it is :: ('a, 'e) event list)"
  "\<not> save_agent_data_invoked (progress_events k n it is :: ('a, 'e) event list)"
  by (induction "is") (simp_all add: progress_events_def)

lemma completed_events_Suc:
  "(completed_events k n it (Suc m) :: ('a, 'e) event list)
     = progress_events k n it [0..<nat it] @ PrintNewline # completed_events (Suc k) n it m"
proof -
  have "[0..<Suc m] = 0 # map Suc [0..<m]" by (simp add: upt_conv_Cons map_Suc_upt del: upt_Suc)
  then show ?thesis by (simp add: completed_events_def comp_def del: upt_Suc)
qed

lemma completed_events_0 [simp]: "completed_events k n it 0 = []"
  by (simp add: completed_events_def)

lemma completed_events_facts [simp]:
  "step_calls (completed_events k n it m :: ('a, 'e) event list)
     = concat (map (\<lambda>j. map (Pair j) [0..<nat it]) [k..<k + m])"
  "\<not> plot_paths_invoked (completed_events k n it m :: ('a, 'e) event list)"
  "\<not> save_agent_data_invoked (completed_events k n it m :: ('a, 'e) event list)"
proof (induction m arbitrary: k)
  case 0
  { case 1 show ?case by simp }
  { case 2 show ?case by simp }
  { case 3 show ?case by simp }
next
  case (Suc m)
  { case 1 show ?case
      using Suc(1) [of "Suc k"] by (simp add: completed_events_Suc upt_conv_Cons del: upt_Suc) }
  { case 2 show ?case using Suc(2) [of "Suc k"] by (simp add: completed_events_Suc) }
  { case 3 show ?case using Suc(3) [of "Suc k"] by (simp add: completed_events_Suc) }
qed

lemma step_loop_completes:
  "run_steps (step cls) is a = Inr a' \<Longrightarrow>
   step_loop cls k n it is a = (True, a', progress_events k n it is)"
  by (induction "is" arbitrary: a)
     (auto simp: progress_events_def split: sum.splits prod.splits)

lemma step_loop_fails:
  "run_steps (step cls) is a = Inl (i, e, a') \<Longrightarrow>
   \<exists>pre post. is = pre @ i # post \<and>
     step_loop cls k n it is a
       = (False, a', progress_events k n it pre @ [StepCall k i, PrintProblem i a' e])"
proof (induction "is" arbitrary: a)
  case Nil
  then show ?case by simp
next
  case (Cons j js)
  show ?case
  proof (cases "step cls a")
    case (Inl p)
    with Cons.prems have "p = (e, a')" "j = i" by (auto split: prod.splits)
    then have "j # js = [] @ i # js"
      and "step_loop cls k n it (j # js) a
             = (False, a', progress_events k n it [] @ [StepCall k i, PrintProblem i a' e])"
      using Inl by (simp_all add: progress_events_def)
    then show ?thesis by blast
  next
    case (Inr b)
    with Cons.prems have "run_steps (step cls) js b = Inl (i, e, a')" by simp
    from Cons.IH [OF this] obtain pre post where
      "js = pre @ i # post"
      "step_loop cls k n it js b
         = (False, a', progress_events k n it pre @ [StepCall k i, PrintProblem i a' e])"
      by blast
    then have "j # js = (j # pre) @ i # post"
      and "step_loop cls k n it (j # js) a
             = (False, a', progress_events k n it (j # pre) @ [StepCall k i, PrintProblem i a' e])"
      using Inr by (simp_all add: progress_events_def)
    then show ?thesis by blast
  qed
qed

lemma upt_split_prefix:
  assumes "[0..<n] = pre @ i # post"
  shows "pre = [0..<i]"
proof -
  have len: "length pre < n" using arg_cong [OF assms, of length] by simp
  have "[0..<n] ! length pre = i" using assms by simp
  then have i: "i = length pre" using len by simp
  have "pre = take (length pre) [0..<n]" using assms by simp
  also have "\<dots> = [0..<length pre]" using len by (simp add: take_upt)
  finally show ?thesis using i by simp
qed

lemma step_loop_fails_upt:
  assumes "run_steps (step cls) [0..<n] a = Inl (i, e, a')"
  shows "step_loop cls k num it [0..<n] a
           = (False, a', progress_events k num it [0..<i] @ [StepCall k i, PrintProblem i a' e])"
proof -
  from step_loop_fails [OF assms, of k num it] obtain pre post where
    sp: "[0..<n] = pre @ i # post" and
    st: "step_loop cls k num it [0..<n] a
       = (False, a', progress_events k num it pre @ [StepCall k i, PrintProblem i a' e])"
    by blast
  have pre: "pre = [0..<i]" by (rule upt_split_prefix [OF sp])
  show ?thesis using st unfolding pre .
qed

lemma agents_loop_aborts:
  assumes "map (run_steps (step cls) [0..<nat it]) finished = map Inr finished'"
    and "run_steps (step cls) [0..<nat it] a = Inl (i, e, a')"
  shows "agents_loop cls k n it (finished @ a # rest)
           = (False, finished' @ a' # rest,
              completed_events k n it (length finished)
              @ progress_events (k + length finished) n it [0..<i]
              @ [StepCall (k + length finished) i, PrintProblem i a' e])"
  using assms(1)
proof (induction finished arbitrary: k finished')
  case Nil
  then show ?case using step_loop_fails_upt [OF assms(2), of k n it] by simp
next
  case (Cons d ds)
  then obtain d' ds' where f: "finished' = d' # ds'"
    and d: "run_steps (step cls) [0..<nat it] d = Inr d'"
    and ds: "map (run_steps (step cls) [0..<nat it]) ds = map Inr ds'"
    by (cases finished') auto
  show ?case
    using Cons.IH [OF ds, of "Suc k"] step_loop_completes [OF d, of k n it]
    by (simp add: f completed_events_Suc)
qed

lemma agents_loop_completes:
  assumes "map (run_steps (step cls) [0..<nat it]) agent_lst = map Inr agent_lst'"
  shows "agents_loop cls k n it agent_lst
           = (True, agent_lst', completed_events k n it (length agent_lst))"
  using assms
proof (induction agent_lst arbitrary: k agent_lst')
  case Nil
  then show ?case by simp
next
  case (Cons d ds)
  then obtain d' ds' where f: "agent_lst' = d' # ds'"
    and d: "run_steps (step cls) [0..<nat it] d = Inr d'"
    and ds: "map (run_steps (step cls) [0..<nat it]) ds = map Inr ds'"
    by (cases agent_lst') auto
  show ?case
    using Cons.IH [OF ds, of "Suc k"] step_loop_completes [OF d, of k n it]
    by (simp add: f completed_events_Suc)
qed

lemma step_loop_calls:
  "step_loop cls k n it is a = (ok, a', evs) \<Longrightarrow>
   prefix (step_calls evs) (map (Pair k) is) \<and> (ok \<longrightarrow> step_calls evs = map (Pair k) is) \<and>
   \<not> plot_paths_invoked evs"
proof (induction "is" arbitrary: a ok a' evs)
  case Nil
  then show ?case by auto
next
  case (Cons j js)
  show ?case
  proof (cases "step cls a")
    case (Inl p)
    then show ?thesis using Cons.prems by (auto split: prod.splits)
  next
    case (Inr b)
    obtain ok1 a1 evs1 where r: "step_loop cls k n it js b = (ok1, a1, evs1)"
      by (cases "step_loop cls k n it js b") auto
    from Cons.IH [OF r] show ?thesis using Cons.prems Inr r by auto
  qed
qed

lemma agents_loop_calls:
  "agents_loop cls k n it agent_lst = (ok, agent_lst', evs) \<Longrightarrow>
   prefix (step_calls evs)
     (concat (map (\<lambda>j. map (Pair j) [0..<nat it]) [k..<k + length agent_lst])) \<and>
   (ok \<longrightarrow> step_calls evs
              = concat (map (\<lambda>j. map (Pair j) [0..<nat it]) [k..<k + length agent_lst])) \<and>
   \<not> plot_paths_invoked evs"
proof (induction agent_lst arbitrary: k ok agent_lst' evs)
  case Nil
  then show ?case by auto
next
  case (Cons a as)
  obtain ok1 a1 evs1 where s: "step_loop cls k n it [0..<nat it] a = (ok1, a1, evs1)"
    by (cases "step_loop cls k n it [0..<nat it] a") auto
  note sl = step_loop_calls [OF s]
  have up: "[k..<k + length (a # as)] = k # [Suc k..<Suc k + length as]"
    by (simp add: upt_conv_Cons del: upt_Suc)
  show ?case
  proof (cases ok1)
    case False
    then have "evs = evs1" "ok = False" using Cons.prems s by auto
    then show ?thesis using sl unfolding up by (auto intro: prefix_prefix)
  next
    case True
    obtain ok2 as2 evs2 where r: "agents_loop cls (Suc k) n it as = (ok2, as2, evs2)"
      by (cases "agents_loop cls (Suc k) n it as") auto
    have "evs = evs1 @ PrintNewline # evs2" "ok = ok2" using Cons.prems s r True by auto
    then show ?thesis using sl True Cons.IH [OF r] unfolding up by auto
  qed
qed

lemma budget_agents_simps [simp]:
  "Agent budget_agents budget pos = (0, budget, [pos])"
  "step budget_agents (n, budget, h) =
     (if n < budget then Inr (Suc n, budget, h @ [(fst (last h) + 1, snd (last h) - 1)])
      else Inl (''no valid move'', (n, budget, h)))"
  "history budget_agents (n, budget, h) = h"
  "str budget_agents (n, budget, h) = ''Agent'' @ digits budget"
  by (simp_all add: budget_agents_def)

lemma run_steps_dichotomy:
  "(\<exists>finals. map (run_steps st xs) agent_lst = map Inr finals) \<or>
   (\<exists>finished a rest finished' i e a'.
      agent_lst = finished @ a # rest \<and>
      map (run_steps st xs) finished = map Inr finished' \<and>
      run_steps st xs a = Inl (i, e, a'))"
proof (induction agent_lst)
  case Nil
  show ?case by simp
next
  case (Cons b bs)
  show ?case
  proof (cases "run_steps st xs b")
    case (Inl p)
    obtain i e a' where p: "p = (i, e, a')" by (cases p) auto
    have "b # bs = [] @ b # bs" "map (run_steps st xs) [] = map Inr []"
      "run_steps st xs b = Inl (i, e, a')"
      using Inl p by simp_all
    then show ?thesis by blast
  next
    case (Inr b')
    from Cons.IH show ?thesis
    proof
      assume "\<exists>finals. map (run_steps st xs) bs = map Inr finals"
      then obtain finals where "map (run_steps st xs) bs = map Inr finals" by blast
      then have "map (run_steps st xs) (b # bs) = map Inr (b' # finals)" using Inr by simp
      then show ?thesis by blast
    next
      assume "\<exists>finished a rest finished' i e a'.
                bs = finished @ a # rest \<and>
                map (run_steps st xs) finished = map Inr finished' \<and>
                run_steps st xs a = Inl (i, e, a')"
      then obtain finished a rest finished' i e a' where
        "bs = finished @ a # rest" "map (run_steps st xs) finished = map Inr finished'"
        "run_steps st xs a = Inl (i, e, a')"
        by blast
      then have "b # bs = (b # finished) @ a # rest"
        "map (run_steps st xs) (b # finished) = map Inr (b' # finished')"
        "run_steps st xs a = Inl (i, e, a')"
        using Inr by simp_all
      then show ?thesis by blast
    qed
  qed
qed

section \<open>The memories\<close>

lemma capacity_new [simp]:
  "capacity (ListBasedMemory c) = c" "capacity (PriorityBasedMemory c) = c"
  "items (ListBasedMemory c :: 'p Memory) = []" "items (PriorityBasedMemory c :: 'p Memory) = []"
  by (simp_all add: ListBasedMemory_def PriorityBasedMemory_def)

lemma capacity_list_push [simp]: "capacity (list_push m e) = capacity m"
  by (simp add: list_push_def Let_def)

lemma capacity_priority_push [simp]: "capacity (priority_push m e) = capacity m"
  by (simp add: priority_push_def Let_def)

lemma items_list_push:
  "items (list_push m e) =
     (if capacity m < Suc (length (items m)) then tl (items m @ [e]) else items m @ [e])"
  by (simp add: list_push_def Let_def)

lemma items_priority_push:
  "items (priority_push m e) =
     (if capacity m < Suc (length (items m)) then evict_min (items m @ [e]) else items m @ [e])"
  by (simp add: priority_push_def Let_def)

lemma capacity_foldl_list [simp]:
  "capacity (foldl list_push m es) = capacity m"
  by (induction es arbitrary: m) simp_all

lemma capacity_foldl_priority [simp]:
  "capacity (foldl priority_push m es) = capacity m"
  by (induction es arbitrary: m) simp_all

lemma list_items_foldl:
  "items (foldl list_push (ListBasedMemory c) es) = drop (length es - c) es"
proof (induction es rule: rev_induct)
  case Nil
  show ?case by simp
next
  case (snoc e es)
  let ?xs = "drop (length es - c) es"
  show ?case
  proof (cases "c \<le> length es")
    case full: True
    show ?thesis
    proof (cases "c = 0")
      case True
      then show ?thesis using snoc by (simp add: items_list_push)
    next
      case False
      with full have ne: "?xs \<noteq> []" by simp
      have "tl (?xs @ [e]) = tl ?xs @ [e]" using ne by simp
      also have "tl ?xs = drop (Suc (length es - c)) es" by (simp add: drop_Suc tl_drop)
      also have "Suc (length es - c) = Suc (length es) - c" using full by simp
      finally have "tl (?xs @ [e]) = drop (Suc (length es) - c) (es @ [e])"
        using full False by simp
      then show ?thesis using snoc full False by (simp add: items_list_push)
    qed
  next
    case False
    then show ?thesis using snoc by (simp add: items_list_push)
  qed
qed

lemma remove_first_mset:
  "\<exists>x\<in>set xs. P x \<Longrightarrow> \<exists>x\<in>set xs. P x \<and> mset (remove_first P xs) + {#x#} = mset xs"
  by (induction xs) auto

lemma remove_first_length:
  "\<exists>x\<in>set xs. P x \<Longrightarrow> Suc (length (remove_first P xs)) = length xs"
  by (induction xs) auto

lemma Min_novelty_attained:
  "xs \<noteq> [] \<Longrightarrow> \<exists>x\<in>set xs. novelty x = Min (set (map novelty xs))"
proof -
  assume "xs \<noteq> []"
  then have "Min (set (map novelty xs)) \<in> set (map novelty xs)"
    by (intro Min_in) auto
  then show ?thesis by auto
qed

lemma evict_min_mset:
  assumes "xs \<noteq> []"
  shows "\<exists>x\<in>set xs. novelty x = Min (set (map novelty xs)) \<and> mset (evict_min xs) + {#x#} = mset xs"
  unfolding evict_min_def
  using remove_first_mset [OF Min_novelty_attained [OF assms]] by blast

lemma evict_min_length:
  "xs \<noteq> [] \<Longrightarrow> Suc (length (evict_min xs)) = length xs"
  unfolding evict_min_def
  by (rule remove_first_length) (rule Min_novelty_attained)

lemma priority_size_foldl:
  "length (items (foldl priority_push (PriorityBasedMemory c) es)) = min c (length es)"
proof (induction es rule: rev_induct)
  case Nil
  show ?case by simp
next
  case (snoc e es)
  let ?m = "foldl priority_push (PriorityBasedMemory c) es"
  have "Suc (length (evict_min (items ?m @ [e]))) = Suc (length (items ?m))"
    using evict_min_length [of "items ?m @ [e]"] by simp
  then show ?case using snoc
    by (auto simp: items_priority_push)
qed

lemma upward_closed_unique:
  fixes U :: "'p Experience set"
  assumes fin: "finite U" and S: "S \<subseteq> U" and T: "T \<subseteq> U" and card: "card S = card T"
    and upS: "\<forall>x\<in>S. \<forall>y\<in>U - S. novelty y < novelty x"
    and upT: "\<forall>x\<in>T. \<forall>y\<in>U - T. novelty y < novelty x"
  shows "S = T"
proof -
  have finS: "finite S" and finT: "finite T" using fin S T by (auto intro: finite_subset)
  have "S \<subseteq> T \<or> T \<subseteq> S"
  proof (rule ccontr)
    assume "\<not> (S \<subseteq> T \<or> T \<subseteq> S)"
    then obtain s t where s: "s \<in> S" "s \<notin> T" and t: "t \<in> T" "t \<notin> S" by auto
    have "novelty s < novelty t" using upT t(1) s S by auto
    moreover have "novelty t < novelty s" using upS s(1) t T by auto
    ultimately show False by simp
  qed
  then show ?thesis
  proof
    assume "S \<subseteq> T"
    then show ?thesis using card_subset_eq [OF finT, of S] card by simp
  next
    assume "T \<subseteq> S"
    then show ?thesis using card_subset_eq [OF finS, of T] card by simp
  qed
qed

lemma sorted_desc_rev_sort_key:
  "sorted_wrt (\<lambda>a b. novelty b \<le> novelty a) (rev (sort_key novelty es))"
proof -
  have "sorted (map novelty (sort_key novelty es))" by (rule sorted_sort_key)
  then have "sorted_wrt (\<lambda>a b. novelty a \<le> novelty b) (sort_key novelty es)"
    by (simp add: sorted_wrt_map)
  then show ?thesis by (simp add: sorted_wrt_rev)
qed

lemma take_highest:
  fixes es :: "'p Experience list" and c :: nat
  assumes dist: "distinct (map novelty es)"
  defines "L \<equiv> rev (sort_key novelty es)"
  shows "set (take c L) \<subseteq> set es"
    and "card (set (take c L)) = min c (length es)"
    and "\<forall>x\<in>set (take c L). \<forall>y\<in>set es - set (take c L). novelty y < novelty x"
proof -
  have setL: "set L = set es" and lenL: "length L = length es" by (simp_all add: L_def)
  have "mset (map novelty L) = mset (map novelty es)" by (simp add: L_def)
  then have dmap: "distinct (map novelty L)" using dist by (metis mset_eq_imp_distinct_iff)
  then have dL: "distinct L" by (simp add: distinct_map)
  show "set (take c L) \<subseteq> set es" using setL by (metis set_take_subset)
  show "card (set (take c L)) = min c (length es)"
    using dL lenL by (simp add: distinct_card distinct_take min.commute)
  have "sorted_wrt (\<lambda>a b. novelty b \<le> novelty a) L"
    using sorted_desc_rev_sort_key [of es] by (simp add: L_def)
  then have "sorted_wrt (\<lambda>a b. novelty b \<le> novelty a) (take c L @ drop c L)"
    by (simp only: append_take_drop_id)
  then have srt: "\<forall>x\<in>set (take c L). \<forall>y\<in>set (drop c L). novelty y \<le> novelty x"
    unfolding sorted_wrt_append by blast
  have "distinct (map novelty (take c L @ drop c L))"
    using dmap by (simp only: append_take_drop_id)
  then have dsplit: "novelty ` set (take c L) \<inter> novelty ` set (drop c L) = {}"
    unfolding map_append distinct_append set_map by blast
  show "\<forall>x\<in>set (take c L). \<forall>y\<in>set es - set (take c L). novelty y < novelty x"
  proof (intro ballI)
    fix x y assume x: "x \<in> set (take c L)" and y: "y \<in> set es - set (take c L)"
    have "set es = set (take c L) \<union> set (drop c L)"
      using setL by (metis append_take_drop_id set_append)
    with y have yd: "y \<in> set (drop c L)" by auto
    have le: "novelty y \<le> novelty x" using srt x yd by blast
    have "novelty x \<noteq> novelty y" using dsplit x yd by blast
    with le show "novelty y < novelty x" by simp
  qed
qed

lemma remove_first_distinct:
  "distinct xs \<Longrightarrow> \<exists>x\<in>set xs. P x \<Longrightarrow>
   \<exists>x\<in>set xs. P x \<and> set (remove_first P xs) = set xs - {x} \<and> distinct (remove_first P xs)"
proof (induction xs)
  case Nil
  then show ?case by simp
next
  case (Cons a xs)
  show ?case
  proof (cases "P a")
    case True
    then show ?thesis using Cons.prems by auto
  next
    case False
    with Cons.prems have "\<exists>x\<in>set xs. P x" and d: "distinct xs" and a: "a \<notin> set xs" by auto
    from Cons.IH [OF d this(1)] obtain x where x: "x \<in> set xs" "P x"
      "set (remove_first P xs) = set xs - {x}" "distinct (remove_first P xs)" by blast
    have "set (remove_first P (a # xs)) = set (a # xs) - {x}"
      using False x a by auto
    moreover have "distinct (remove_first P (a # xs))" using False x a by auto
    ultimately show ?thesis using x(1,2) by auto
  qed
qed

lemma evict_min_distinct:
  assumes "xs \<noteq> []" "distinct xs"
  shows "\<exists>x\<in>set xs. novelty x = Min (set (map novelty xs)) \<and>
           set (evict_min xs) = set xs - {x} \<and> distinct (evict_min xs)"
  unfolding evict_min_def
  using remove_first_distinct [OF assms(2) Min_novelty_attained [OF assms(1)]] by blast

lemma priority_invariant:
  fixes es :: "'p Experience list"
  assumes "distinct (map novelty es)"
  shows "set (items (foldl priority_push (PriorityBasedMemory c) es)) \<subseteq> set es \<and>
         distinct (items (foldl priority_push (PriorityBasedMemory c) es)) \<and>
         (\<forall>x\<in>set (items (foldl priority_push (PriorityBasedMemory c) es)).
            \<forall>y\<in>set es - set (items (foldl priority_push (PriorityBasedMemory c) es)).
              novelty y < novelty x)"
  using assms
proof (induction es rule: rev_induct)
  case Nil
  show ?case by simp
next
  case (snoc e es)
  let ?m = "foldl priority_push (PriorityBasedMemory c) es"
  let ?xs = "items ?m"
  let ?ys = "?xs @ [e]"
  have dist_es: "distinct (map novelty es)" and e_new: "novelty e \<notin> novelty ` set es"
    using snoc.prems by auto
  have sub: "set ?xs \<subseteq> set es" and d_xs: "distinct ?xs"
    and up: "\<forall>x\<in>set ?xs. \<forall>y\<in>set es - set ?xs. novelty y < novelty x"
    using snoc.IH [OF dist_es] by auto
  have len: "length ?xs = min c (length es)" by (rule priority_size_foldl)
  have d_es: "distinct es" using dist_es by (simp add: distinct_map)
  have inj_on: "inj_on novelty (set (es @ [e]))"
    using snoc.prems by (simp only: distinct_map)
  have inj: "\<And>a b. a \<in> set (es @ [e]) \<Longrightarrow> b \<in> set (es @ [e]) \<Longrightarrow> novelty a = novelty b \<Longrightarrow> a = b"
    using inj_on by (rule inj_onD)
  have e_notin: "e \<notin> set ?xs" using sub e_new by auto
  have d_ys: "distinct ?ys" using d_xs e_notin by simp
  show ?case
  proof (cases "c < Suc (length ?xs)")
    case False
    then have "length ?xs < c" by simp
    with len have "length ?xs = length es" by simp
    then have "card (set ?xs) = card (set es)" using d_xs d_es by (simp add: distinct_card)
    then have all: "set ?xs = set es" using sub by (simp add: card_subset_eq)
    have it: "items (foldl priority_push (PriorityBasedMemory c) (es @ [e])) = ?ys"
      using False by (simp add: items_priority_push)
    show ?thesis unfolding it using d_ys all by auto
  next
    case True
    obtain m where m: "m \<in> set ?ys" "novelty m = Min (set (map novelty ?ys))"
      and zs: "set (evict_min ?ys) = set ?ys - {m}" and d_zs: "distinct (evict_min ?ys)"
      using evict_min_distinct [of ?ys] d_ys by auto
    have it: "items (foldl priority_push (PriorityBasedMemory c) (es @ [e])) = evict_min ?ys"
      using True by (simp add: items_priority_push)
    have ys_sub: "set ?ys \<subseteq> set (es @ [e])" using sub by auto
    have min_le: "\<And>x. x \<in> set ?ys \<Longrightarrow> novelty m \<le> novelty x"
      unfolding m(2) by (rule Min_le) auto
    have min_lt: "\<And>x. x \<in> set ?ys \<Longrightarrow> x \<noteq> m \<Longrightarrow> novelty m < novelty x"
    proof -
      fix x assume x: "x \<in> set ?ys" "x \<noteq> m"
      have "novelty x \<noteq> novelty m" using inj [of x m] x m(1) ys_sub by auto
      with min_le [OF x(1)] show "novelty m < novelty x" by simp
    qed
    have part1: "set (evict_min ?ys) \<subseteq> set (es @ [e])" using zs ys_sub by auto
    have part2: "\<forall>x\<in>set (evict_min ?ys). \<forall>y\<in>set (es @ [e]) - set (evict_min ?ys). novelty y < novelty x"
    proof (intro ballI)
      fix x y assume x: "x \<in> set (evict_min ?ys)" and y: "y \<in> set (es @ [e]) - set (evict_min ?ys)"
      from x zs have x_ys: "x \<in> set ?ys" and x_ne: "x \<noteq> m" by auto
      from y zs have y_cases: "y = m \<or> y \<in> set es - set ?xs" by auto
      then show "novelty y < novelty x"
      proof
        assume "y = m" then show ?thesis using min_lt [OF x_ys x_ne] by simp
      next
        assume y_old: "y \<in> set es - set ?xs"
        show ?thesis
        proof (cases "x \<in> set ?xs")
          case True
          then show ?thesis using up y_old by auto
        next
          case False
          with x_ys have xe: "x = e" by simp
          with x_ne m(1) have m_xs: "m \<in> set ?xs" by auto
          have "novelty y < novelty m" using up m_xs y_old by auto
          also have "novelty m < novelty x" using min_lt [OF x_ys x_ne] .
          finally show ?thesis .
        qed
      qed
    qed
    show ?thesis unfolding it using part1 part2 d_zs by simp
  qed
qed

lemma priority_survivors_set:
  fixes es :: "'p Experience list"
  assumes "distinct (map novelty es)"
  shows "set (priority_as_list (foldl priority_push (PriorityBasedMemory c) es)) =
           set (take c (rev (sort_key novelty es)))"
proof -
  let ?xs = "items (foldl priority_push (PriorityBasedMemory c) es)"
  have sub: "set ?xs \<subseteq> set es" and d_xs: "distinct ?xs"
    and up: "\<forall>x\<in>set ?xs. \<forall>y\<in>set es - set ?xs. novelty y < novelty x"
    using priority_invariant [OF assms, of c] by auto
  have card: "card (set ?xs) = min c (length es)"
    using d_xs by (simp add: distinct_card priority_size_foldl)
  have "set ?xs = set (take c (rev (sort_key novelty es)))"
    by (rule upward_closed_unique [of "set es"])
       (use sub card up take_highest [OF assms, of c] in simp_all)
  then show ?thesis by (simp add: priority_as_list_def)
qed

section \<open>The claims\<close>

subsection \<open>C1: a step that raises\<close>

text \<open>
  Claim C1 says that when some agent's \<open>step()\<close> raises at iteration \<open>i\<close>, the run stops
  that agent's stepping at once and reports the step and the agent, that the agents that
  had completed their iterations are unaffected, and that plotting and export of the
  completed agents' histories still proceed. The last part does not hold: the handler ends
  with \<^verbatim>\<open>return\<close>, which leaves run_experiment before \<^verbatim>\<open>plot_paths\<close> and
  \<^verbatim>\<open>save_agent_data\<close> are reached.

  C1 as amended: let the agents before \<open>a\<close> in the list complete all their iterations,
  and let the step of \<open>a\<close> raise \<open>e\<close> at iteration \<open>i\<close>, leaving \<open>a'\<close>. Then
  run_experiment returns; the last thing it prints is the problem report with \<open>i\<close>, the
  agent and \<open>e\<close>; the steps taken are all the iterations of the agents before \<open>a\<close>,
  then iterations \<open>0\<close> to \<open>i\<close> of \<open>a\<close>, and no step of a later agent; the agents
  before \<open>a\<close> are as their own iterations left them and the agents after \<open>a\<close> are
  untouched; neither \<^verbatim>\<open>plot_paths\<close> nor \<^verbatim>\<open>save_agent_data\<close> is invoked, and
  no file is written.
\<close>

theorem run_experiment_aborts_on_failure:
  assumes "length motivation_lst = length position_lst"
    and "(saveGraph = False \<and> saveLocation = False) \<or> dirname \<noteq> None"
    and "map (\<lambda>(motiv, pos). Agent cls motiv pos) (zip motivation_lst position_lst)
           = finished @ a # rest"
    and "map (run_steps (step cls) [0..<nat iterations]) finished = map Inr finished'"
    and "run_steps (step cls) [0..<nat iterations] a = Inl (i, e, a')"
  shows "\<exists>r. run_experiment cls motivation_lst position_lst mp iterations show saveGraph
                saveLocation dirname fs = Inr r \<and>
           last (trace r) = PrintProblem i a' e \<and>
           step_calls (trace r)
             = sequential_schedule (length finished) iterations
               @ map (Pair (length finished)) [0..<Suc i] \<and>
           agents r = finished' @ a' # rest \<and>
           \<not> plot_paths_invoked (trace r) \<and> \<not> save_agent_data_invoked (trace r) \<and>
           disk r = fs"
proof -
  have "agents_loop cls 0 (length (finished @ a # rest)) iterations (finished @ a # rest)
          = (False, finished' @ a' # rest,
             completed_events 0 (length (finished @ a # rest)) iterations (length finished)
              @ progress_events (0 + length finished) (length (finished @ a # rest)) iterations [0..<i]
              @ [StepCall (0 + length finished) i, PrintProblem i a' e])"
    using assms(4,5) by (rule agents_loop_aborts)
  then show ?thesis
    using assms(1,2,3)
    by (simp add: run_experiment_def Let_def sequential_schedule_def del: upt_Suc)
       (simp add: upt_Suc_append)
qed

text \<open>
  An instance: two agents and two iterations, where the first agent can take two steps and
  the second only one, with every saving option on.
\<close>

theorem run_experiment_aborts_on_failure_witness:
  "\<exists>r. run_experiment budget_agents [2, 1] [(0, 0), (5, 5)] () 2 True True True (Some ''out'') test_fs
          = Inr r \<and>
        last (trace r) = PrintProblem 1 (1, 1, [(5, 5), (6, 4)]) ''no valid move'' \<and>
        step_calls (trace r) = [(0, 0), (0, 1), (1, 0), (1, 1)] \<and>
        agents r = [(2, 2, [(0, 0), (1, - 1), (2, - 2)]), (1, 1, [(5, 5), (6, 4)])] \<and>
        \<not> plot_paths_invoked (trace r) \<and> \<not> save_agent_data_invoked (trace r) \<and>
        disk r = test_fs"
proof -
  have h3: "map (\<lambda>(motiv, pos). Agent budget_agents motiv pos) (zip [2, 1] [(0, 0), (5, 5)])
              = [(0, 2, [(0, 0)])] @ (0, 1, [(5, 5)]) # []"
    by simp
  have h4: "map (run_steps (step budget_agents) [0..<nat 2]) [(0, 2, [(0, 0)])]
              = map Inr [(2, 2, [(0, 0), (1, - 1), (2, - 2)])]"
    by (simp add: upt_conv_Cons del: upt_Suc)
  have h5: "run_steps (step budget_agents) [0..<nat 2] (0, 1, [(5, 5)])
              = Inl (1, ''no valid move'', (1, 1, [(5, 5), (6, 4)]))"
    by (simp add: upt_conv_Cons del: upt_Suc)
  have "length [2 :: nat, 1] = length [(0 :: int, 0 :: int), (5, 5)]" by simp
  from run_experiment_aborts_on_failure [OF this _ h3 h4 h5, of True True "Some ''out''" "()" True test_fs]
  show ?thesis by (simp add: sequential_schedule_def upt_conv_Cons del: upt_Suc)
qed

text \<open>
  C1 as stated fails on a run with one agent whose first step raises: the run returns with
  the step call and the problem report as its only events, and neither
  \<^verbatim>\<open>plot_paths\<close> nor \<^verbatim>\<open>save_agent_data\<close> among them.
\<close>

theorem run_experiment_skips_plotting_counterexample:
  "step budget_agents (0, 0, [(0, 0)]) = Inl (''no valid move'', (0, 0, [(0, 0)])) \<and>
   run_experiment budget_agents [0] [(0, 0)] () 1 False False False None test_fs
     = Inr \<lparr>agents = [(0, 0, [(0, 0)])],
            trace = [StepCall 0 0, PrintProblem 0 (0, 0, [(0, 0)]) ''no valid move''],
            disk = test_fs\<rparr> \<and>
   \<not> plot_paths_invoked
        [StepCall 0 0, PrintProblem 0 (0 :: nat, 0 :: nat, [(0 :: int, 0 :: int)]) ''no valid move''] \<and>
   \<not> save_agent_data_invoked
        [StepCall 0 0, PrintProblem 0 (0 :: nat, 0 :: nat, [(0 :: int, 0 :: int)]) ''no valid move'']"
  by (simp add: run_experiment_def)

subsection \<open>C2: export and load\<close>

text \<open>
  Claim C2 says that for every agent whose history is a sequence of integer pairs,
  save_agent_data with \<open>save\<close> true writes a file that starts with the header row
  \<open>x,y\<close> and has one row per history entry, in history order, and that load_agent_data
  applied to that file returns the history, as tuples of ints, without the header row. This
  does not hold for every agent of a list: the file is named after \<^verbatim>\<open>str(agent)\<close>,
  so two agents with the same name share a file, and the later one overwrites what the
  earlier one wrote.

  C2 as amended: let the agent stand anywhere in the list given to save_agent_data, let no
  later agent of the list have the same file path, and let every file of the list be
  creatable. Then the export returns, the agent's file is the header row \<open>x,y\<close> followed
  by one row per history entry, in history order, and load_agent_data applied to it returns
  the history, as tuples of ints, without the header row.
\<close>

theorem save_load_roundtrip:
  assumes "agent_lst = before @ a # after"
    and "\<forall>b\<in>set agent_lst. can_create fs (record_path dirname (str cls b))"
    and "\<forall>b\<in>set after. record_path dirname (str cls b) \<noteq> record_path dirname (str cls a)"
  shows "\<exists>fs'. save_agent_data cls agent_lst True (Some dirname) fs = Inr fs' \<and>
           files fs' (record_path dirname (str cls a))
             = Some (''x,y'' @ [CR, LF]
                     @ concat (map (\<lambda>(x, y). py_str_int x @ '','' @ py_str_int y @ [CR, LF])
                                 (history cls a))) \<and>
           load_agent_data fs' (Some (record_path dirname (str cls a)))
             = Inr (map (\<lambda>(x, y). [x, y]) (history cls a))"
proof -
  from save_agent_data_file [of before a after fs dirname cls] assms
  obtain fs' where fs': "save_agent_data cls agent_lst True (Some dirname) fs = Inr fs'"
    "files fs' (record_path dirname (str cls a))
       = Some (writerow [''x'', ''y''] @ writerows (history_rows (history cls a)))"
    by auto
  show ?thesis
    using fs' load_exported [OF fs'(2)] by (simp add: export_text)
qed

text \<open>
  An instance: two agents exported to the directory \<open>out\<close>; the first one's file is
  read back.
\<close>

theorem save_load_roundtrip_witness:
  "\<exists>fs'. save_agent_data budget_agents
            [(2, 2, [(0, 0), (1, - 1), (2, - 2)]), (1, 1, [(5, 5), (6, 4)])]
            True (Some ''out'') test_fs = Inr fs' \<and>
          files fs' ''out/Agent2_path_record.csv''
            = Some (''x,y'' @ [CR, LF] @ ''0,0'' @ [CR, LF] @ ''1,-1'' @ [CR, LF]
                    @ ''2,-2'' @ [CR, LF]) \<and>
          load_agent_data fs' (Some ''out/Agent2_path_record.csv'')
            = Inr [[0, 0], [1, - 1], [2, - 2]]"
proof -
  define a2 where "a2 = (2 :: nat, 2 :: nat, [(0, 0), (1, - 1), (2, - 2)] :: position list)"
  define a1 where "a1 = (1 :: nat, 1 :: nat, [(5, 5), (6, 4)] :: position list)"
  have p2: "record_path ''out'' (str budget_agents a2) = ''out/Agent2_path_record.csv''"
    by (simp add: a2_def record_path_def agent_filename_def py_replace_def digits.simps
          digit_char_def)
  have p1: "record_path ''out'' (str budget_agents a1) = ''out/Agent1_path_record.csv''"
    by (simp add: a1_def record_path_def agent_filename_def py_replace_def digits.simps
          digit_char_def)
  have h: "history budget_agents a2 = [(0, 0), (1, - 1), (2, - 2)]" by (simp add: a2_def)
  have s: "py_str_int 0 = ''0''" "py_str_int 1 = ''1''" "py_str_int 2 = ''2''"
    "py_str_int (- 1) = ''-1''" "py_str_int (- 2) = ''-2''"
    by (simp_all add: py_str_int_def digits.simps digit_char_def)
  have h1: "[a2, a1] = [] @ a2 # [a1]" by simp
  have h2: "\<forall>b\<in>set [a2, a1]. can_create test_fs (record_path ''out'' (str budget_agents b))"
    by (simp add: test_fs_def)
  have h3: "\<forall>b\<in>set [a1]. record_path ''out'' (str budget_agents b)
              \<noteq> record_path ''out'' (str budget_agents a2)"
    by (simp add: p1 p2)
  from save_load_roundtrip [OF h1 h2 h3] obtain fs' where
    f1: "save_agent_data budget_agents [a2, a1] True (Some ''out'') test_fs = Inr fs'" and
    f2: "files fs' (record_path ''out'' (str budget_agents a2))
           = Some (''x,y'' @ [CR, LF]
                   @ concat (map (\<lambda>(x, y). py_str_int x @ '','' @ py_str_int y @ [CR, LF])
                       (history budget_agents a2)))" and
    f3: "load_agent_data fs' (Some (record_path ''out'' (str budget_agents a2)))
           = Inr (map (\<lambda>(x, y). [x, y]) (history budget_agents a2))"
    by blast
  have g1: "save_agent_data budget_agents
              [(2, 2, [(0, 0), (1, - 1), (2, - 2)]), (1, 1, [(5, 5), (6, 4)])]
              True (Some ''out'') test_fs = Inr fs'"
    using f1 by (simp only: a2_def a1_def)
  have g2: "files fs' ''out/Agent2_path_record.csv''
              = Some (''x,y'' @ [CR, LF] @ ''0,0'' @ [CR, LF] @ ''1,-1'' @ [CR, LF]
                      @ ''2,-2'' @ [CR, LF])"
    using f2 unfolding p2 h by (simp add: s)
  have g3: "load_agent_data fs' (Some ''out/Agent2_path_record.csv'')
              = Inr [[0, 0], [1, - 1], [2, - 2]]"
    using f3 unfolding p2 h by simp
  show ?thesis using g1 g2 g3 by blast
qed

text \<open>
  C2 as stated fails for two agents that are both named \<open>Agent7\<close>: after the export, the
  file of the first agent is read back as the history of the second.
\<close>

theorem save_load_same_name_counterexample:
  "record_path ''out'' (str budget_agents (2, 7, [(0, 0), (1, - 1), (2, - 2)]))
     = record_path ''out'' (str budget_agents (1, 7, [(5, 5), (6, 4)])) \<and>
   (case save_agent_data budget_agents
           [(2, 7, [(0, 0), (1, - 1), (2, - 2)]), (1, 7, [(5, 5), (6, 4)])]
           True (Some ''out'') test_fs of
      Inl e \<Rightarrow> Inl e
    | Inr fs' \<Rightarrow>
        load_agent_data fs'
          (Some (record_path ''out'' (str budget_agents (2, 7, [(0, 0), (1, - 1), (2, - 2)])))))
     = Inr [[5, 5], [6, 4]] \<and>
   map (\<lambda>(x, y). [x, y]) (history budget_agents (2, 7, [(0, 0), (1, - 1), (2, - 2)]))
     = [[0, 0], [1, - 1], [2, - 2]]"
proof -
  define a1 where "a1 = (2 :: nat, 7 :: nat, [(0, 0), (1, - 1), (2, - 2)] :: position list)"
  define a2 where "a2 = (1 :: nat, 7 :: nat, [(5, 5), (6, 4)] :: position list)"
  have same: "record_path ''out'' (str budget_agents a1) = record_path ''out'' (str budget_agents a2)"
    by (simp add: a1_def a2_def)
  have h2: "history budget_agents a2 = [(5, 5), (6, 4)]" by (simp add: a2_def)
  have h1: "history budget_agents a1 = [(0, 0), (1, - 1), (2, - 2)]" by (simp add: a1_def)
  have c: "\<forall>b\<in>set ([a1] @ a2 # []). can_create test_fs (record_path ''out'' (str budget_agents b))"
    by (simp add: test_fs_def)
  have d: "\<forall>b\<in>set []. record_path ''out'' (str budget_agents b)
             \<noteq> record_path ''out'' (str budget_agents a2)"
    by simp
  from save_agent_data_file [OF c d] obtain fs' where
    s: "save_agent_data budget_agents ([a1] @ a2 # []) True (Some ''out'') test_fs = Inr fs'" and
    f: "files fs' (record_path ''out'' (str budget_agents a2))
          = Some (writerow [''x'', ''y''] @ writerows (history_rows (history budget_agents a2)))"
    by blast
  have "load_agent_data fs' (Some (record_path ''out'' (str budget_agents a2)))
          = Inr (map (\<lambda>(x, y). [x, y]) (history budget_agents a2))"
    using f by (rule load_exported)
  then have l: "load_agent_data fs' (Some (record_path ''out'' (str budget_agents a1)))
                  = Inr [[5, 5], [6, 4]]"
    unfolding same h2 by simp
  have s': "save_agent_data budget_agents [a1, a2] True (Some ''out'') test_fs = Inr fs'"
    using s by simp
  have "(case save_agent_data budget_agents [a1, a2] True (Some ''out'') test_fs of
           Inl e \<Rightarrow> Inl e
         | Inr fs' \<Rightarrow> load_agent_data fs' (Some (record_path ''out'' (str budget_agents a1))))
          = Inr [[5, 5], [6, 4]]"
    unfolding s' using l by simp
  moreover have "map (\<lambda>(x, y). [x, y]) (history budget_agents a1) = [[0, 0], [1, - 1], [2, - 2]]"
    unfolding h1 by simp
  ultimately show ?thesis using same unfolding a1_def a2_def by blast
qed

subsection \<open>C3: the priority memory keeps the highest novelties\<close>

text \<open>
  Claim C3: after pushing Experiences with pairwise distinct novelties into a
  PriorityBasedMemory of capacity \<open>c\<close>, in any order, the memory holds exactly the \<open>c\<close>
  Experiences of highest novelty among those pushed (all of them when fewer than \<open>c\<close>
  were pushed), and \<open>as_list()\<close> gives them by descending novelty: it is the first \<open>c\<close>
  entries of the pushed Experiences sorted by descending novelty. In particular, after
  novelties 0 to 5 are pushed into a memory of capacity 5, no entry has novelty 0.
\<close>

theorem priority_memory_keeps_highest:
  fixes es :: "'p Experience list"
  assumes "distinct (map novelty es)"
  shows "priority_as_list (foldl priority_push (PriorityBasedMemory c) es) =
           take c (rev (sort_key novelty es))"
proof -
  let ?xs = "items (foldl priority_push (PriorityBasedMemory c) es)"
  let ?A = "priority_as_list (foldl priority_push (PriorityBasedMemory c) es)"
  let ?B = "take c (rev (sort_key novelty es))"
  have sets: "set ?A = set ?B" by (rule priority_survivors_set [OF assms])
  have inj: "inj_on novelty (set es)" using assms by (simp add: distinct_map)
  have subA: "set ?A \<subseteq> set es"
    using priority_invariant [OF assms, of c] by (simp add: priority_as_list_def)
  have subB: "set ?B \<subseteq> set es" using take_highest(1) [OF assms] .
  have d_xs: "distinct ?xs" using priority_invariant [OF assms, of c] by simp
  have dA: "distinct (map novelty ?A)"
    using d_xs subA inj by (auto simp: priority_as_list_def distinct_map intro: inj_on_subset)
  have "distinct (map novelty (rev (sort_key novelty es)))"
    using assms by (simp add: distinct_map)
  then have dB: "distinct (map novelty ?B)"
    by (simp only: take_map [symmetric] distinct_take)
  have sA: "sorted (rev (map novelty ?A))"
    by (simp add: priority_as_list_def rev_map [symmetric])
  have "sorted (rev (map novelty (rev (sort_key novelty es))))"
    by (simp add: rev_map [symmetric])
  then have sB: "sorted (rev (map novelty ?B))"
    by (simp only: take_map [symmetric] rev_take sorted_wrt_drop)
  have "rev (map novelty ?A) = rev (map novelty ?B)"
    by (rule sorted_distinct_set_unique) (use sA sB dA dB sets in simp_all)
  then have "map novelty ?A = map novelty ?B" by simp
  moreover have "inj_on novelty (set ?A \<union> set ?B)"
    using inj subA subB by (auto intro: inj_on_subset)
  ultimately show ?thesis by (simp add: inj_on_map_eq_map)
qed

text \<open>The instance of src/testing.py, test_priority_based_memory.\<close>

theorem priority_memory_keeps_highest_witness:
  "distinct (map novelty test_experiences) \<and>
   priority_as_list (foldl priority_push (PriorityBasedMemory 5) test_experiences)
     = map (\<lambda>i. \<lparr>novelty = real i, payload = ()\<rparr>) [5, 4, 3, 2, 1] \<and>
   list_all (\<lambda>e. novelty e \<noteq> 0)
     (priority_as_list (foldl priority_push (PriorityBasedMemory 5) test_experiences))"
proof -
  have d: "distinct (map novelty test_experiences)"
    by (simp add: test_experiences_def upt_conv_Cons del: upt_Suc)
  have "take 5 (rev (sort_key novelty test_experiences))
          = map (\<lambda>i. \<lparr>novelty = real i, payload = ()\<rparr>) [5, 4, 3, 2, 1]"
    by (simp add: test_experiences_def upt_conv_Cons del: upt_Suc)
  then show ?thesis using d priority_memory_keeps_highest [OF d, of 5] by simp
qed

subsection \<open>C4: the list memory keeps the most recent entries\<close>

text \<open>
  Claim C4: a ListBasedMemory of capacity \<open>c\<close> holds, after any pushes, the last \<open>c\<close>
  Experiences pushed, and \<open>as_list()\<close> returns them in insertion order, oldest first.
  So after pushing \<open>c + k\<close> Experiences with novelties \<open>0\<close> to \<open>c + k - 1\<close> in
  increasing order, \<open>as_list()\<close> is the Experiences with novelties \<open>k\<close> to
  \<open>c + k - 1\<close>, in that order.
\<close>

theorem list_memory_fifo:
  "list_as_list (foldl list_push (ListBasedMemory c) es) = drop (length es - c) es \<and>
   list_as_list (foldl list_push (ListBasedMemory c)
       (map (\<lambda>i. \<lparr>novelty = real i, payload = p i\<rparr>) [0..<c + k]))
     = map (\<lambda>i. \<lparr>novelty = real i, payload = p i\<rparr>) [k..<c + k]"
  by (simp add: list_as_list_def list_items_foldl drop_map)

text \<open>The instance of src/testing.py, test_list_based_memory.\<close>

theorem list_memory_fifo_witness:
  "list_as_list (foldl list_push (ListBasedMemory 5) test_experiences)
     = map (\<lambda>i. \<lparr>novelty = real i, payload = ()\<rparr>) [1, 2, 3, 4, 5] \<and>
   list_all (\<lambda>e. novelty e \<noteq> 0) (list_as_list (foldl list_push (ListBasedMemory 5) test_experiences))"
  using list_memory_fifo [of 5 test_experiences "\<lambda>i. ()" 1]
  by (simp add: test_experiences_def upt_conv_Cons del: upt_Suc)

subsection \<open>C5: agents are stepped one after the other\<close>

text \<open>
  Claim C5: run_experiment steps the agents strictly in sequence: each agent completes all
  its iterations before the next agent of the list takes any step. For every call that
  passes the two assertions, the loops of lines 166-183 run on the agents built from the
  lists, and the calls of \<open>step()\<close> they make, in order, are an initial part of the
  sequential schedule (all iterations of the first agent, then all of the second, and so
  on). The steps are really taken. When no step raises, every agent ends as its own
  iterations leave it, the calls are the whole schedule, and run_experiment goes on to
  \<^verbatim>\<open>plot_paths\<close> and \<^verbatim>\<open>save_agent_data\<close>, whose exception, if any, is the
  result. When a step raises, the agents before the failing one have taken all their
  iterations, the failing one has taken the iterations up to the one that raised, and no
  later agent has taken any.
\<close>

theorem run_experiment_sequential:
  assumes len: "length motivation_lst = length position_lst"
    and dir: "(saveGraph = False \<and> saveLocation = False) \<or> dirname \<noteq> None"
    and al: "agent_lst = map (\<lambda>(motiv, pos). Agent cls motiv pos) (zip motivation_lst position_lst)"
  shows "\<exists>ok agents' evs.
           agents_loop cls 0 (length agent_lst) iterations agent_lst = (ok, agents', evs) \<and>
           prefix (step_calls evs) (sequential_schedule (length position_lst) iterations) \<and>
           (if ok then
              map (run_steps (step cls) [0..<nat iterations]) agent_lst = map Inr agents' \<and>
              step_calls evs = sequential_schedule (length position_lst) iterations \<and>
              run_experiment cls motivation_lst position_lst mp iterations show saveGraph
                  saveLocation dirname fs
                = (case save_agent_data cls agents' saveLocation dirname fs of
                     Inl e \<Rightarrow> Inl e
                   | Inr fs' \<Rightarrow>
                       Inr \<lparr>agents = agents',
                            trace = evs @ [PlotPaths agents' show saveGraph dirname,
                                           SaveAgentData agents' saveLocation dirname],
                            disk = fs'\<rparr>)
            else
              (\<exists>finished a rest finished' i e a'.
                 agent_lst = finished @ a # rest \<and> agents' = finished' @ a' # rest \<and>
                 map (run_steps (step cls) [0..<nat iterations]) finished = map Inr finished' \<and>
                 run_steps (step cls) [0..<nat iterations] a = Inl (i, e, a') \<and>
                 step_calls evs
                   = sequential_schedule (length finished) iterations
                     @ map (Pair (length finished)) [0..<Suc i]) \<and>
              run_experiment cls motivation_lst position_lst mp iterations show saveGraph
                  saveLocation dirname fs
                = Inr \<lparr>agents = agents', trace = evs, disk = fs\<rparr>)"
proof -
  have n: "length agent_lst = length position_lst" using len al by simp
  obtain ok agents' evs where
    l: "agents_loop cls 0 (length agent_lst) iterations agent_lst = (ok, agents', evs)"
    by (cases "agents_loop cls 0 (length agent_lst) iterations agent_lst") auto
  have pre: "prefix (step_calls evs) (sequential_schedule (length position_lst) iterations)"
    using agents_loop_calls [OF l] n by (simp add: sequential_schedule_def)
  from run_steps_dichotomy [of "step cls" "[0..<nat iterations]" agent_lst]
  show ?thesis
  proof
    assume "\<exists>finals. map (run_steps (step cls) [0..<nat iterations]) agent_lst = map Inr finals"
    then obtain finals where
      f: "map (run_steps (step cls) [0..<nat iterations]) agent_lst = map Inr finals"
      by blast
    have r: "agents_loop cls 0 (length agent_lst) iterations agent_lst
               = (True, finals, completed_events 0 (length agent_lst) iterations (length agent_lst))"
      using f by (rule agents_loop_completes)
    with l have ok: "ok = True" and ag: "agents' = finals"
      and ev: "evs = completed_events 0 (length agent_lst) iterations (length agent_lst)"
      by simp_all
    have calls: "step_calls evs = sequential_schedule (length position_lst) iterations"
      using n by (simp add: ev sequential_schedule_def)
    have run: "run_experiment cls motivation_lst position_lst mp iterations show saveGraph
                   saveLocation dirname fs
                 = (case save_agent_data cls agents' saveLocation dirname fs of
                      Inl e \<Rightarrow> Inl e
                    | Inr fs' \<Rightarrow>
                        Inr \<lparr>agents = agents',
                             trace = evs @ [PlotPaths agents' show saveGraph dirname,
                                            SaveAgentData agents' saveLocation dirname],
                             disk = fs'\<rparr>)"
      using len dir l [unfolded al] ok by (simp add: run_experiment_def Let_def)
    show ?thesis using l pre f calls run ok ag by auto
  next
    assume "\<exists>finished a rest finished' i e a'.
              agent_lst = finished @ a # rest \<and>
              map (run_steps (step cls) [0..<nat iterations]) finished = map Inr finished' \<and>
              run_steps (step cls) [0..<nat iterations] a = Inl (i, e, a')"
    then obtain finished a rest finished' i e a' where
      sp: "agent_lst = finished @ a # rest" and
      fin: "map (run_steps (step cls) [0..<nat iterations]) finished = map Inr finished'" and
      fail: "run_steps (step cls) [0..<nat iterations] a = Inl (i, e, a')"
      by blast
    have r: "agents_loop cls 0 (length agent_lst) iterations (finished @ a # rest)
               = (False, finished' @ a' # rest,
                  completed_events 0 (length agent_lst) iterations (length finished)
                  @ progress_events (0 + length finished) (length agent_lst) iterations [0..<i]
                  @ [StepCall (0 + length finished) i, PrintProblem i a' e])"
      using fin fail by (rule agents_loop_aborts)
    with l sp have ok: "ok = False" and ag: "agents' = finished' @ a' # rest"
      and ev: "evs = completed_events 0 (length agent_lst) iterations (length finished)
                  @ progress_events (length finished) (length agent_lst) iterations [0..<i]
                  @ [StepCall (length finished) i, PrintProblem i a' e]"
      by simp_all
    have calls: "step_calls evs
                   = sequential_schedule (length finished) iterations
                     @ map (Pair (length finished)) [0..<Suc i]"
      by (simp add: ev sequential_schedule_def)
    have run: "run_experiment cls motivation_lst position_lst mp iterations show saveGraph
                   saveLocation dirname fs
                 = Inr \<lparr>agents = agents', trace = evs, disk = fs\<rparr>"
      using len dir l [unfolded al] ok by (simp add: run_experiment_def Let_def)
    have "\<exists>finished a rest finished' i e a'.
            agent_lst = finished @ a # rest \<and> agents' = finished' @ a' # rest \<and>
            map (run_steps (step cls) [0..<nat iterations]) finished = map Inr finished' \<and>
            run_steps (step cls) [0..<nat iterations] a = Inl (i, e, a') \<and>
            step_calls evs
              = sequential_schedule (length finished) iterations
                @ map (Pair (length finished)) [0..<Suc i]"
      using sp ag fin fail calls by blast
    then show ?thesis using l pre run ok by auto
  qed
qed

text \<open>
  An instance: two agents, two iterations each, no step raising; the agents of the result
  are the agents after their two steps.
\<close>

theorem run_experiment_sequential_witness:
  "\<exists>r. run_experiment budget_agents [2, 2] [(0, 0), (5, 5)] () 2 False False False None test_fs
          = Inr r \<and>
        agents r = [(2, 2, [(0, 0), (1, - 1), (2, - 2)]), (2, 2, [(5, 5), (6, 4), (7, 3)])] \<and>
        map (run_steps (step budget_agents) [0..<nat 2]) [(0, 2, [(0, 0)]), (0, 2, [(5, 5)])]
          = map Inr (agents r) \<and>
        step_calls (trace r) = [(0, 0), (0, 1), (1, 0), (1, 1)] \<and>
        sequential_schedule 2 2 = [(0, 0), (0, 1), (1, 0), (1, 1)]"
proof -
  have h1: "length [2 :: nat, 2] = length [(0 :: int, 0 :: int), (5, 5)]" by simp
  have h2: "(False = False \<and> False = False) \<or> (None :: string option) \<noteq> None" by simp
  note inst = run_experiment_sequential [OF h1 h2 refl, of budget_agents 2 "()" False test_fs]
  have sched: "sequential_schedule 2 2 = [(0, 0), (0, 1), (1, 0), (1, 1)]"
    by (simp add: sequential_schedule_def upt_conv_Cons del: upt_Suc)
  from inst sched show ?thesis
    by (simp add: run_experiment_def upt_conv_Cons del: upt_Suc)
qed

subsection \<open>C6: the assertions at entry\<close>

text \<open>
  Claim C6: run_experiment fails with an AssertionError exactly when the motivation list
  and the position list differ in length, or a saving option (\<open>saveGraph\<close>,
  \<open>saveLocation\<close>) is on while \<open>dirname\<close> is None. With equal lengths and either
  both options off or a directory given, no assertion fires.
\<close>

theorem run_experiment_assertions:
  "run_experiment cls motivation_lst position_lst mp iterations show saveGraph saveLocation
       dirname fs = Inl AssertionError
   \<longleftrightarrow> (length motivation_lst \<noteq> length position_lst \<or>
        \<not> ((saveGraph = False \<and> saveLocation = False) \<or> dirname \<noteq> None))"
  using save_agent_data_no_assert [of cls _ saveLocation dirname fs]
  by (auto simp: run_experiment_def Let_def split: prod.splits bool.splits sum.splits)

text \<open>
  Instances: the defaults of the signature (\<open>saveLocation\<close> on, no directory) fail; lists
  of different lengths fail; equal lengths with both options off pass the assertions.
\<close>

theorem run_experiment_assertions_witness:
  "run_experiment budget_agents [1] [(0, 0)] () 1 True False True None test_fs
     = Inl AssertionError \<and>
   run_experiment budget_agents [1, 2] [(0, 0)] () 1 True False False None test_fs
     = Inl AssertionError \<and>
   run_experiment budget_agents [1] [(0, 0)] () 1 False False False None test_fs
     \<noteq> Inl AssertionError"
  using run_experiment_assertions [of budget_agents "[1]" "[(0, 0)]" "()" 1 True False True None test_fs]
    run_experiment_assertions [of budget_agents "[1, 2]" "[(0, 0)]" "()" 1 True False False None test_fs]
    run_experiment_assertions [of budget_agents "[1]" "[(0, 0)]" "()" 1 False False False None test_fs]
  by simp

subsection \<open>C7: a memory never exceeds its capacity\<close>

text \<open>
  Claim C7 says that for both memories, with a positive capacity and after any sequence of
  pushes, the size is at most the capacity, and that each push that would exceed the
  capacity evicts exactly one existing entry, raising no error. For the priority memory the
  evicted entry need not be an existing one: the entry of minimum novelty is evicted after
  the insertion, and that is the pushed entry when its novelty is the lowest.

  C7 as amended: for both memories, with a positive capacity \<open>c\<close> and after any sequence
  of pushes, the size is at most \<open>c\<close> and the capacity is still \<open>c\<close>; and a push into
  a memory that is full evicts exactly one entry: the contents afterwards are the contents
  before together with the pushed entry, less one entry \<open>x\<close>. In the list memory \<open>x\<close>
  is an entry the memory held before the push. In the priority memory \<open>x\<close> has the lowest
  novelty among the entries held and the pushed one, and may be the pushed entry itself.
  A push is a total function here: overflow raises nothing.
\<close>

theorem memory_capacity_invariant:
  fixes es :: "'p Experience list"
  assumes "0 < c"
  shows "memory_size (foldl list_push (ListBasedMemory c) es) \<le> c \<and>
         capacity (foldl list_push (ListBasedMemory c) es) = c \<and>
         memory_size (foldl priority_push (PriorityBasedMemory c) es) \<le> c \<and>
         capacity (foldl priority_push (PriorityBasedMemory c) es) = c \<and>
         (memory_size (foldl list_push (ListBasedMemory c) es) = c \<longrightarrow>
            (\<exists>x\<in>set (items (foldl list_push (ListBasedMemory c) es)).
               mset (items (list_push (foldl list_push (ListBasedMemory c) es) e)) + {#x#}
                 = mset (items (foldl list_push (ListBasedMemory c) es)) + {#e#})) \<and>
         (memory_size (foldl priority_push (PriorityBasedMemory c) es) = c \<longrightarrow>
            (\<exists>x\<in>set (items (foldl priority_push (PriorityBasedMemory c) es) @ [e]).
               novelty x = Min (set (map novelty
                  (items (foldl priority_push (PriorityBasedMemory c) es) @ [e]))) \<and>
               mset (items (priority_push (foldl priority_push (PriorityBasedMemory c) es) e))
                   + {#x#}
                 = mset (items (foldl priority_push (PriorityBasedMemory c) es)) + {#e#}))"
proof -
  let ?lm = "foldl list_push (ListBasedMemory c) es"
  let ?pm = "foldl priority_push (PriorityBasedMemory c) es"
  have 1: "memory_size ?lm \<le> c" by (simp add: memory_size_def list_items_foldl)
  have 2: "memory_size ?pm \<le> c" by (simp add: memory_size_def priority_size_foldl)
  have 3: "\<exists>x\<in>set (items ?lm). mset (items (list_push ?lm e)) + {#x#} = mset (items ?lm) + {#e#}"
    if full: "memory_size ?lm = c"
  proof -
    have ne: "items ?lm \<noteq> []" using full assms by (auto simp: memory_size_def)
    then have "items (list_push ?lm e) = tl (items ?lm) @ [e]"
      using full by (simp add: items_list_push memory_size_def)
    moreover have "mset (tl (items ?lm)) + {#hd (items ?lm)#} = mset (items ?lm)"
      using ne by (cases "items ?lm") simp_all
    ultimately have "mset (items (list_push ?lm e)) + {#hd (items ?lm)#} = mset (items ?lm) + {#e#}"
      by simp
    moreover have "hd (items ?lm) \<in> set (items ?lm)" using ne by simp
    ultimately show ?thesis by blast
  qed
  have 4: "\<exists>x\<in>set (items ?pm @ [e]).
             novelty x = Min (set (map novelty (items ?pm @ [e]))) \<and>
             mset (items (priority_push ?pm e)) + {#x#} = mset (items ?pm) + {#e#}"
    if full: "memory_size ?pm = c"
  proof -
    have "items (priority_push ?pm e) = evict_min (items ?pm @ [e])"
      using full by (simp add: items_priority_push memory_size_def)
    then show ?thesis using evict_min_mset [of "items ?pm @ [e]"] by simp
  qed
  show ?thesis using 1 2 3 4 by simp
qed

text \<open>
  Instances, capacity 2: a third push into the list memory evicts one of the two entries
  held; pushing novelty 0 into the priority memory that holds novelties 4 and 5 leaves its
  contents as they were.
\<close>

theorem memory_capacity_invariant_witness:
  "(0::nat) < 2 \<and>
   memory_size (foldl list_push (ListBasedMemory 2) (take 2 test_experiences)) = 2 \<and>
   memory_size (list_push (foldl list_push (ListBasedMemory 2) (take 2 test_experiences))
                  (test_experiences ! 2)) = 2 \<and>
   (\<exists>x\<in>set (items (foldl list_push (ListBasedMemory 2) (take 2 test_experiences))).
      mset (items (list_push (foldl list_push (ListBasedMemory 2) (take 2 test_experiences))
                     (test_experiences ! 2))) + {#x#}
        = mset (take 3 test_experiences)) \<and>
   memory_size (foldl priority_push (PriorityBasedMemory 2) (drop 4 test_experiences)) = 2 \<and>
   items (priority_push (foldl priority_push (PriorityBasedMemory 2) (drop 4 test_experiences))
            (test_experiences ! 0))
     = drop 4 test_experiences"
  using memory_capacity_invariant [of 2 "take 2 test_experiences" "test_experiences ! 2"]
    memory_capacity_invariant [of 2 "drop 4 test_experiences" "test_experiences ! 0"]
  by (simp add: test_experiences_def upt_conv_Cons memory_size_def items_list_push
        items_priority_push evict_min_def del: upt_Suc)

text \<open>
  C7 as stated fails for the priority memory of capacity 2 that holds novelties 4 and 5:
  it is full, and pushing novelty 0 leaves its contents as they were, so no entry it held
  is evicted.
\<close>

theorem priority_push_evicts_pushed_counterexample:
  "capacity (foldl priority_push (PriorityBasedMemory 2) (drop 4 test_experiences)) = 2 \<and>
   memory_size (foldl priority_push (PriorityBasedMemory 2) (drop 4 test_experiences)) = 2 \<and>
   map novelty (items (foldl priority_push (PriorityBasedMemory 2) (drop 4 test_experiences)))
     = [4, 5] \<and>
   novelty (test_experiences ! 0) = 0 \<and>
   items (priority_push (foldl priority_push (PriorityBasedMemory 2) (drop 4 test_experiences))
            (test_experiences ! 0))
     = items (foldl priority_push (PriorityBasedMemory 2) (drop 4 test_experiences))"
  by (simp add: test_experiences_def upt_conv_Cons memory_size_def items_priority_push
        evict_min_def del: upt_Suc)

end
